theory Spec2Isabelle
  imports Complex_Main
begin

section \<open>JavaScript values and arrays\<close>

text \<open>
  The values that flow through the series' data pipeline. A JavaScript number is modelled
  as a real (rounding, NaN and the infinities are not modelled: a computation whose
  JavaScript result is NaN is \<open>None\<close> below). An array is a list; a hole of a sparse
  array reads as \<open>Undefined\<close>, as it does in JavaScript.
\<close>

datatype jsval =
    Undefined
  | Null
  | Num real
  | Str string
  | Arr "jsval list"
  | Obj "(string \<times> jsval) list"

text \<open>\<open>isNumber\<close>, \<open>isArray\<close>, \<open>isString\<close> and \<open>defined\<close> of Core/Utilities.\<close>

fun isNumber :: "jsval \<Rightarrow> bool" where
  "isNumber (Num r) = True"
| "isNumber v = False"

fun isArray :: "jsval \<Rightarrow> bool" where
  "isArray (Arr vs) = True"
| "isArray v = False"

fun isString :: "jsval \<Rightarrow> bool" where
  "isString (Str t) = True"
| "isString v = False"

fun defined :: "jsval \<Rightarrow> bool" where
  "defined Undefined = False"
| "defined Null = False"
| "defined v = True"

text \<open>
  The numeric reading of an operand of \<open><\<close>, \<open>>\<close>, \<open>>=\<close> and \<open>-\<close>: a number is
  itself, \<open>null\<close> is 0 and \<open>undefined\<close> is NaN. The coercion of strings, arrays and
  objects is not modelled: they read as NaN as well.
\<close>

fun toNum :: "jsval \<Rightarrow> real option" where
  "toNum (Num r) = Some r"
| "toNum Null = Some 0"
| "toNum v = None"

definition js_lt :: "jsval \<Rightarrow> jsval \<Rightarrow> bool" where
  "js_lt a b = (case (toNum a, toNum b) of (Some x, Some y) \<Rightarrow> x < y | _ \<Rightarrow> False)"

definition js_gt :: "jsval \<Rightarrow> jsval \<Rightarrow> bool" where
  "js_gt a b = (case (toNum a, toNum b) of (Some x, Some y) \<Rightarrow> x > y | _ \<Rightarrow> False)"

definition js_ge :: "jsval \<Rightarrow> jsval \<Rightarrow> bool" where
  "js_ge a b = (case (toNum a, toNum b) of (Some x, Some y) \<Rightarrow> x \<ge> y | _ \<Rightarrow> False)"

text \<open>
  Reading \<open>a[i]\<close>: outside the array (also at index -1) the result is \<open>undefined\<close>,
  the \<open>hole\<close> of the element type (\<open>Undefined\<close> for values, \<open>None\<close> for object
  references).
\<close>

definition arr_get :: "'a \<Rightarrow> 'a list \<Rightarrow> int \<Rightarrow> 'a" where
  "arr_get hole xs i = (if 0 \<le> i \<and> i < int (length xs) then xs ! nat i else hole)"

definition arr_at :: "jsval list \<Rightarrow> int \<Rightarrow> jsval" where
  "arr_at xs i = arr_get Undefined xs i"

text \<open>
  Writing \<open>a[i] = v\<close>: inside the array the element is replaced; at or beyond the length
  the array grows to \<open>i + 1\<close> and the positions skipped are holes; a negative \<open>i\<close> names
  a property, not an element, and the elements and the length stay as they are.
\<close>

definition arr_set :: "'a \<Rightarrow> 'a list \<Rightarrow> int \<Rightarrow> 'a \<Rightarrow> 'a list" where
  "arr_set hole xs i v =
    (if i < 0 then xs
     else if nat i < length xs then xs[nat i := v]
     else xs @ replicate (nat i - length xs) hole @ [v])"

text \<open>\<open>a.slice(start, end)\<close> for non-negative integer arguments.\<close>

definition slice :: "'a list \<Rightarrow> nat \<Rightarrow> nat \<Rightarrow> 'a list" where
  "slice xs start end = take (end - start) (drop start xs)"

text \<open>
  The array after \<open>a.splice(start, deleteCount, ...items)\<close>: a negative \<open>start\<close> counts
  from the end, and both arguments are clamped to the array.
\<close>

definition splice :: "'a list \<Rightarrow> int \<Rightarrow> int \<Rightarrow> 'a list \<Rightarrow> 'a list" where
  "splice xs start deleteCount items =
    (let len = int (length xs);
         actualStart = (if start < 0 then max (len + start) 0 else min start len);
         actualDeleteCount = min (max deleteCount 0) (len - actualStart)
     in take (nat actualStart) xs @ items @ drop (nat (actualStart + actualDeleteCount)) xs)"

text \<open>
  The \<open>Array.prototype\<close> methods that \<open>updateParallelArrays\<close> is called with by name,
  with their arguments, and the array each leaves behind.
\<close>

datatype array_call =
    Splice int int "jsval list"
  | Shift
  | Push "jsval list"
  | Pop
  | Unshift "jsval list"

fun apply_call :: "array_call \<Rightarrow> jsval list \<Rightarrow> jsval list" where
  "apply_call (Splice start deleteCount items) xs = splice xs start deleteCount items"
| "apply_call Shift xs = tl xs"
| "apply_call (Push items) xs = xs @ items"
| "apply_call Pop xs = butlast xs"
| "apply_call (Unshift items) xs = items @ xs"

text \<open>
  A plain object is its list of properties; a missing property reads as \<open>undefined\<close>.
\<close>

type_synonym obj = "(string \<times> jsval) list"

definition obj_get :: "obj \<Rightarrow> string \<Rightarrow> jsval" where
  "obj_get ob k = (case map_of ob k of Some v \<Rightarrow> v | None \<Rightarrow> Undefined)"

fun obj_set :: "obj \<Rightarrow> string \<Rightarrow> jsval \<Rightarrow> obj" where
  "obj_set [] k v = [(k, v)]"
| "obj_set ((k', v') # ob) k v = (if k' = k then (k, v) # ob else (k', v') # obj_set ob k v)"

text \<open>
  \<open>Array.prototype.sort\<close> with a comparator: the sort is stable, and an element moves
  in front of another only where the comparator is positive for the pair in their
  present order. A comparator result of NaN counts as 0. (For a comparator that is not a
  consistent order the result of the JavaScript sort is implementation-defined; the
  insertion sort below is one such implementation.)
\<close>

fun sort_insert :: "('a \<Rightarrow> 'a \<Rightarrow> real option) \<Rightarrow> 'a \<Rightarrow> 'a list \<Rightarrow> 'a list" where
  "sort_insert cmp a [] = [a]"
| "sort_insert cmp a (b # bs) =
     (case cmp a b of
        None \<Rightarrow> a # b # bs
      | Some c \<Rightarrow> if c \<le> 0 then a # b # bs else b # sort_insert cmp a bs)"

definition js_sort :: "('a \<Rightarrow> 'a \<Rightarrow> real option) \<Rightarrow> 'a list \<Rightarrow> 'a list" where
  "js_sort cmp xs = foldr (sort_insert cmp) xs []"

text \<open>\<open>a - b\<close> on numbers that may be \<open>undefined\<close>: NaN then.\<close>

definition js_minus :: "real option \<Rightarrow> real option \<Rightarrow> real option" where
  "js_minus a b = (case (a, b) of (Some x, Some y) \<Rightarrow> Some (x - y) | _ \<Rightarrow> None)"

text \<open>\<open>pick\<close> of Core/Utilities: the first argument that is neither undefined nor null.\<close>

fun pick :: "'a option list \<Rightarrow> 'a option" where
  "pick [] = None"
| "pick (None # as) = pick as"
| "pick (Some a # as) = Some a"

section \<open>The series and its points\<close>

text \<open>
  The x axis as the series consumes it: the extremes returned by \<open>getExtremes()\<close>,
  whether the axis is logarithmic, its \<open>val2lin\<close> (code of Core/Axis, taken as a
  parameter), its dirty flag and the two range fields that \<open>setData\<close> touches.
\<close>

record axis =
  ax_min :: jsval
  ax_max :: jsval
  logarithmic :: bool
  val2lin :: "real \<Rightarrow> real"
  ax_isDirty :: bool
  minRange :: "real option"
  userMinRange :: "real option"

text \<open>
  A \<open>Point\<close> object, by the properties the series code reads and writes. The class
  itself (Core/Series/Point) is not among the sources; \<open>hasGraphics\<close> stands for the
  rendered elements that \<open>destroyElements\<close> releases and \<open>destroyed\<close> for the effect of
  \<open>destroy\<close>. An unset property is \<open>None\<close>.
\<close>

record point =
  pt_options :: jsval
  pt_x :: jsval
  pt_index :: "nat option"
  plotX :: "real option"
  plotY :: "real option"
  clientX :: "real option"
  isNull :: bool
  pt_visible :: bool
  hasGraphics :: bool
  destroyed :: bool
  pt_dist :: "real option"
  pt_distX :: "real option"

text \<open>
  Points are objects: the arrays \<open>series.data\<close> and \<open>series.points\<close> hold references
  into a store of points, so that the same point can sit in both. A reference is an index
  of the store; \<open>None\<close> in an array is a hole, \<open>undefined\<close> or \<open>null\<close>.
\<close>

type_synonym ref = nat

text \<open>
  The k-d tree: \<open>KDNode\<close> with its optional children; \<open>Empty\<close> is the \<open>undefined\<close>
  that \<open>_kdtree\<close> returns for no points. A node holds its point by value, with the
  coordinates it had when the tree was built.
\<close>

datatype kdnode = Empty | KDNode point kdnode kdnode

record kdPointSearchObject =
  so_clientX :: real
  so_plotY :: "real option"

text \<open>A call \<open>error(code, stop, chart)\<close> of Core/Utilities, as it is recorded.\<close>

type_synonym error_call = "nat \<times> bool"

text \<open>
  The state of a \<open>Series\<close>: the parallel arrays (\<open>xData\<close>, \<open>yData\<close> and
  \<open>series[key + 'Data']\<close> for every further key as \<open>otherData key\<close>), the raw options
  \<open>options.data\<close> as \<open>opt_data\<close>, the materialised points, the processed arrays, the
  counters, and the options and prototype properties the code reads. Options carry the
  prefix \<open>opt_\<close> where a property of the series has the same name; a threshold that is 0
  or missing is 0. The subclass hook \<open>toYData\<close> is \<open>None\<close> where a series type does
  not define it. \<open>timeSet\<close>, \<open>dateTime\<close> (the chart's \<open>Time\<close>) and \<open>isInsidePlot\<close>
  (the chart) are code outside the sources, taken as parameters. \<open>errors\<close> is the host's
  error channel, in the order of the calls. A series here has no linked series.

  \<open>getProcessedData\<close> hands on \<open>series.xData\<close> and \<open>series.yData\<close> themselves where it
  crops nothing, so \<open>series.processedXData\<close> is then the very array \<open>series.xData\<close>, and
  every later write to the one shows in the other (the parallel arrays are created once
  and only ever changed in place). \<open>processed_unsliced\<close> says that the processed arrays
  are the raw arrays themselves; otherwise they are the arrays \<open>getProcessedData\<close> made,
  \<open>processedXData_slice\<close> and \<open>processedYData_slice\<close>.
\<close>

record series =
  xData :: "jsval list"
  yData :: "jsval list"
  otherData :: "string \<Rightarrow> jsval list"
  parallelArrays :: "string list"
  toYData :: "(obj \<Rightarrow> jsval) option"
  opt_data :: "jsval list"
  data :: "ref option list"
  points :: "ref option list option"
  heap :: "point list"
  processed_unsliced :: bool
  processedXData_slice :: "jsval list"
  processedYData_slice :: "jsval list"
  cropStart :: "nat option"
  cropped :: "bool option"
  closestPointRange :: "real option"
  basePointRange :: "real option"
  hasGroupedData :: bool
  groupAll :: bool
  xIncrement :: "real option"
  pointInterval :: "real option"
  opt_pointStart :: "real option"
  opt_pointInterval :: "real option"
  pointIntervalUnit :: "string option"
  timeSet :: "string \<Rightarrow> real \<Rightarrow> real \<Rightarrow> real"
  dateTime :: "real \<Rightarrow> real"
  turboThreshold :: nat
  cropThreshold :: nat
  pointArrayMap :: "string list option"
  keys :: "string list option"
  colorCounter :: nat
  isDirty :: bool
  isDirtyData :: bool
  chart_isDirtyBox :: bool
  visible :: bool
  isSeriesBoosting :: bool
  legendType :: "string option"
  errors :: "error_call list"
  dataSorting_enabled :: bool
  sortKey :: "string option"
  xAxis :: "axis option"
  yAxis_isDirty :: bool
  opt_getExtremesFromAll :: bool
  getExtremesFromAll :: bool
  isCartesian :: bool
  sorted_flag :: bool
  forceCrop :: bool
  requireSorting :: bool
  cropShoulder :: nat
  kdTree :: kdnode
  buildingKdTree :: bool
  findNearestPointBy :: string
  directTouch :: bool
  kdNow :: bool
  isInsidePlot :: "real option \<Rightarrow> real option \<Rightarrow> bool"

text \<open>What \<open>series.processedXData\<close> and \<open>series.processedYData\<close> read.\<close>

definition processedXData :: "series \<Rightarrow> jsval list" where
  "processedXData s = (if processed_unsliced s then xData s else processedXData_slice s)"

definition processedYData :: "series \<Rightarrow> jsval list" where
  "processedYData s = (if processed_unsliced s then yData s else processedYData_slice s)"

text \<open>
  Modelled from the spec: \<open>error\<close> of Core/Utilities, which is not among the sources.
  Every condition it reports is local and recoverable, surfaced to the embedding
  application through a callback or log channel and never unwound as a crash: the call is
  recorded and the caller goes on.
\<close>

definition error :: "nat \<Rightarrow> bool \<Rightarrow> series \<Rightarrow> series" where
  "error code stop s = s\<lparr>errors := errors s @ [(code, stop)]\<rparr>"

subsection \<open>updateParallelArrays\<close>

text \<open>\<open>series[key + 'Data']\<close>, read and written.\<close>

definition get_array :: "series \<Rightarrow> string \<Rightarrow> jsval list" where
  "get_array s key =
    (if key = ''x'' then xData s else if key = ''y'' then yData s else otherData s key)"

definition set_array :: "string \<Rightarrow> jsval list \<Rightarrow> series \<Rightarrow> series" where
  "set_array key arr s =
    (if key = ''x'' then s\<lparr>xData := arr\<rparr>
     else if key = ''y'' then s\<lparr>yData := arr\<rparr>
     else s\<lparr>otherData := (otherData s)(key := arr)\<rparr>)"

text \<open>
  The second argument of \<open>updateParallelArrays\<close>: a number, the index to write the
  point's values at, or the name of an array method with the arguments that follow it.
\<close>

datatype pa_arg = AtIndex int | Call array_call

text \<open>The function \<open>fn\<close> that \<open>updateParallelArrays\<close> builds, applied to one key.\<close>

fun pa_fn :: "obj \<Rightarrow> pa_arg \<Rightarrow> string \<Rightarrow> series \<Rightarrow> series" where
  "pa_fn point (AtIndex i) key s =
     (let val = (case toYData s of
                   Some f \<Rightarrow> if key = ''y'' then f point else obj_get point key
                 | None \<Rightarrow> obj_get point key)
      in set_array key (arr_set Undefined (get_array s key) i val) s)"
| "pa_fn point (Call c) key s = set_array key (apply_call c (get_array s key)) s"

definition updateParallelArrays :: "obj \<Rightarrow> pa_arg \<Rightarrow> series \<Rightarrow> series" where
  "updateParallelArrays point i s = fold (pa_fn point i) (parallelArrays s) s"

subsection \<open>autoIncrement\<close>

text \<open>
  \<open>timeSet s unit t n\<close> is the time of \<open>new time.Date(t)\<close> after
  \<open>time.set(unit, date, time.get(unit, date) + n)\<close>, and \<open>dateTime s t\<close> the time of
  \<open>new time.Date(t)\<close> left as it is. The result is the x value handed out and the series
  with the cursor moved on.
\<close>

definition autoIncrement :: "series \<Rightarrow> real \<times> series" where
  "autoIncrement s =
    (let xIncrement' = (case pick [xIncrement s, opt_pointStart s] of Some v \<Rightarrow> v | None \<Rightarrow> 0);
         pointInterval' =
           (case pick [pointInterval s, opt_pointInterval s] of Some v \<Rightarrow> v | None \<Rightarrow> 1);
         pointInterval'' =
           (case pointIntervalUnit s of
              None \<Rightarrow> pointInterval'
            | Some u \<Rightarrow>
                if u = [] then pointInterval'
                else (if u = ''day'' then timeSet s ''Date'' xIncrement' pointInterval'
                      else if u = ''month'' then timeSet s ''Month'' xIncrement' pointInterval'
                      else if u = ''year'' then timeSet s ''FullYear'' xIncrement' pointInterval'
                      else dateTime s xIncrement') - xIncrement')
     in (xIncrement',
         s\<lparr>pointInterval := Some pointInterval', xIncrement := Some (xIncrement' + pointInterval'')\<rparr>))"

subsection \<open>Point options\<close>

text \<open>
  Modelled from the spec: \<open>Point.optionsToObject\<close> and \<open>Point.applyOptions\<close> of
  Core/Series/Point, which is not among the sources. The generic path constructs an
  options object per entry, converting the short forms to x and y: a single number is a
  point with that y value, an array is interpreted as x and y values respectively, an
  object is taken as it is. A point that is given no x value takes the auto-incremented
  one of \<open>autoIncrement\<close>.
\<close>

fun optionsToObject :: "jsval \<Rightarrow> obj" where
  "optionsToObject (Num n) = [(''y'', Num n)]"
| "optionsToObject Null = [(''y'', Null)]"
| "optionsToObject (Arr vs) = [(''x'', arr_at vs 0), (''y'', arr_at vs 1)]"
| "optionsToObject (Obj ob) = ob"
| "optionsToObject v = []"

definition applyOptions :: "jsval \<Rightarrow> series \<Rightarrow> obj \<times> series" where
  "applyOptions options s =
    (let point = optionsToObject options
     in if obj_get point ''x'' = Undefined
        then (case autoIncrement s of (x, s') \<Rightarrow> (obj_set point ''x'' (Num x), s'))
        else (point, s))"

text \<open>
  Modelled from the spec: \<open>Point.init\<close>, \<open>Point.destroyElements\<close> and \<open>Point.destroy\<close>
  of Core/Series/Point. A point is constructed from its raw options and its x value; a
  point that is cropped out has its rendered state released; a point that is removed or
  replaced is destroyed, its rendered state with it.
\<close>

definition pointInit :: "jsval \<Rightarrow> jsval \<Rightarrow> point" where
  "pointInit options x =
    \<lparr> pt_options = options, pt_x = x, pt_index = None, plotX = None, plotY = None,
      clientX = None, isNull = False, pt_visible = True, hasGraphics = False,
      destroyed = False, pt_dist = None, pt_distX = None \<rparr>"

definition destroyElements :: "point \<Rightarrow> point" where
  "destroyElements p = p\<lparr>hasGraphics := False\<rparr>"

definition destroy :: "point \<Rightarrow> point" where
  "destroy p = p\<lparr>hasGraphics := False, destroyed := True\<rparr>"

text \<open>Changing the object behind a reference; a hole of an array names no object.\<close>

definition heap_upd :: "(point \<Rightarrow> point) \<Rightarrow> ref option \<Rightarrow> point list \<Rightarrow> point list" where
  "heap_upd f r h = (case r of None \<Rightarrow> h | Some a \<Rightarrow> if a < length h then h[a := f (h ! a)] else h)"

subsection \<open>cropData\<close>

record cropDataObject =
  cd_xData :: "jsval list"
  cd_yData :: "jsval list"
  cd_start :: nat
  cd_end :: nat

text \<open>
  Both \<open>for\<close> loops of \<open>cropData\<close> scan upwards until a test succeeds: \<open>scan_up P xs i\<close>
  is the value of the loop variable when the loop over the remaining elements \<open>xs\<close>, the
  first of them at index \<open>i\<close>, is left: the index of the \<open>break\<close>, or the length.
\<close>

fun scan_up :: "(jsval \<Rightarrow> bool) \<Rightarrow> jsval list \<Rightarrow> nat \<Rightarrow> nat" where
  "scan_up P [] i = i"
| "scan_up P (x # xs) i = (if P x then i else scan_up P xs (Suc i))"

definition cropData ::
  "series \<Rightarrow> jsval list \<Rightarrow> jsval list \<Rightarrow> jsval \<Rightarrow> jsval \<Rightarrow> nat option \<Rightarrow> cropDataObject" where
  "cropData s xs ys min' max' cropShoulder' =
    (let dataLength = length xs;
         shoulder = (case cropShoulder' of Some c \<Rightarrow> c | None \<Rightarrow> cropShoulder s);
         i = scan_up (\<lambda>x. js_ge x min') xs 0;
         cropStart' = (if i < dataLength then nat (max 0 (int i - int shoulder)) else 0);
         j = scan_up (\<lambda>x. js_gt x max') (drop i xs) i;
         cropEnd = (if j < dataLength then j + shoulder else dataLength)
     in \<lparr> cd_xData = slice xs cropStart' cropEnd,
          cd_yData = slice ys cropStart' cropEnd,
          cd_start = cropStart',
          cd_end = cropEnd \<rparr>)"

subsection \<open>getProcessedData and processData\<close>

record processedDataObject =
  pd_xData :: "jsval list"
  pd_yData :: "jsval list"
  pd_cropped :: "bool option"
  pd_cropStart :: nat
  pd_closestPointRange :: "real option"

text \<open>The condition under which \<open>getProcessedData\<close> looks at the extremes at all.\<close>

definition crop_gate :: "series \<Rightarrow> bool \<Rightarrow> bool" where
  "crop_gate s forceExtremesFromAll =
    (isCartesian s \<and> sorted_flag s \<and>
     \<not> (forceExtremesFromAll \<or> getExtremesFromAll s \<or> opt_getExtremesFromAll s) \<and>
     (cropThreshold s = 0 \<or> length (xData s) > cropThreshold s \<or> forceCrop s))"

text \<open>
  The cropping step: the processed x and y arrays, \<open>cropStart\<close> and \<open>cropped\<close>
  (\<open>None\<close> is \<open>undefined\<close>). Without an x axis \<open>min\<close> and \<open>max\<close> stay \<open>undefined\<close>.
  (\<open>series.yData\<close> is an array from \<open>init\<close> on, so the test of it is true.)
\<close>

definition crop_step :: "series \<Rightarrow> bool \<Rightarrow> jsval list \<times> jsval list \<times> nat \<times> bool option" where
  "crop_step s forceExtremesFromAll =
    (let dataLength = int (length (xData s));
         min' = (case xAxis s of None \<Rightarrow> Undefined | Some a \<Rightarrow> ax_min a);
         max' = (case xAxis s of None \<Rightarrow> Undefined | Some a \<Rightarrow> ax_max a)
     in if crop_gate s forceExtremesFromAll then
          if js_lt (arr_at (xData s) (dataLength - 1)) min' \<or> js_gt (arr_at (xData s) 0) max'
          then ([], [], 0, None)
          else if js_lt (arr_at (xData s) 0) min' \<or> js_gt (arr_at (xData s) (dataLength - 1)) max'
          then (let c = cropData s (xData s) (yData s) min' max' None
                in (cd_xData c, cd_yData c, cd_start c, Some True))
          else (xData s, yData s, 0, None)
        else (xData s, yData s, 0, None))"

text \<open>
  Whether the cropping step hands on \<open>series.xData\<close> and \<open>series.yData\<close> themselves: it
  does unless it empties or slices them.
\<close>

definition hands_on_arrays :: "series \<Rightarrow> bool \<Rightarrow> bool" where
  "hands_on_arrays s forceExtremesFromAll =
    (let dataLength = int (length (xData s));
         min' = (case xAxis s of None \<Rightarrow> Undefined | Some a \<Rightarrow> ax_min a);
         max' = (case xAxis s of None \<Rightarrow> Undefined | Some a \<Rightarrow> ax_max a)
     in if crop_gate s forceExtremesFromAll then
          if js_lt (arr_at (xData s) (dataLength - 1)) min' \<or> js_gt (arr_at (xData s) 0) max'
          then False
          else if js_lt (arr_at (xData s) 0) min' \<or> js_gt (arr_at (xData s) (dataLength - 1)) max'
          then False
          else True
        else True)"

text \<open>
  The distance between the processed x values at \<open>i\<close> and \<open>i - 1\<close>, through \<open>val2lin\<close>
  on a logarithmic axis; \<open>None\<close> is NaN.
\<close>

definition distance :: "axis option \<Rightarrow> jsval list \<Rightarrow> nat \<Rightarrow> real option" where
  "distance ax pxs i =
    (case (toNum (arr_at pxs (int i)), toNum (arr_at pxs (int i - 1))) of
       (Some a, Some b) \<Rightarrow>
          (case ax of
             Some x \<Rightarrow> if logarithmic x then Some (val2lin x a - val2lin x b) else Some (a - b)
           | None \<Rightarrow> Some (a - b))
     | _ \<Rightarrow> None)"

text \<open>
  The loop \<open>while (--i)\<close>: \<open>closest_loop ax pxs i st\<close> runs the iterations for the indices
  \<open>i, i - 1, ..., 1\<close> on the state \<open>(closestPointRange, throwOnUnsorted, errors)\<close>.
\<close>

fun closest_loop ::
  "axis option \<Rightarrow> jsval list \<Rightarrow> nat \<Rightarrow> real option \<times> bool \<times> error_call list
     \<Rightarrow> real option \<times> bool \<times> error_call list" where
  "closest_loop ax pxs 0 st = st"
| "closest_loop ax pxs (Suc k) (closestPointRange', throwOnUnsorted, errs) =
     closest_loop ax pxs k
       (case distance ax pxs (Suc k) of
          None \<Rightarrow> (closestPointRange', throwOnUnsorted, errs)
        | Some d \<Rightarrow>
            if d > 0 \<and> (case closestPointRange' of None \<Rightarrow> True | Some c \<Rightarrow> d < c)
            then (Some d, throwOnUnsorted, errs)
            else if d < 0 \<and> throwOnUnsorted
            then (closestPointRange', False, errs @ [(15, False)])
            else (closestPointRange', throwOnUnsorted, errs))"

text \<open>
  \<open>getProcessedData\<close> returns the processed data; the second component is the list of
  its calls of \<open>error\<close>.
\<close>

definition getProcessedData :: "series \<Rightarrow> bool \<Rightarrow> processedDataObject \<times> error_call list" where
  "getProcessedData s forceExtremesFromAll =
    (case crop_step s forceExtremesFromAll of
       (processedXData', processedYData', cropStart', cropped') \<Rightarrow>
         (case closest_loop (xAxis s) processedXData'
                 ((if length processedXData' = 0 then 1 else length processedXData') - 1)
                 (None, requireSorting s, []) of
            (closestPointRange', throwOnUnsorted, errs) \<Rightarrow>
              (\<lparr> pd_xData = processedXData',
                 pd_yData = processedYData',
                 pd_cropped = cropped',
                 pd_cropStart = cropStart',
                 pd_closestPointRange = closestPointRange' \<rparr>, errs)))"

text \<open>
  \<open>processData\<close> records the processed data on the series, unless nothing is dirty.
  (A cartesian series has both axes bound; the dirty flag of a missing x axis reads as
  false.)
\<close>

definition processData :: "bool \<Rightarrow> series \<Rightarrow> series" where
  "processData force s =
    (if isCartesian s \<and> \<not> isDirty s \<and>
        \<not> (case xAxis s of None \<Rightarrow> False | Some a \<Rightarrow> ax_isDirty a) \<and>
        \<not> yAxis_isDirty s \<and> \<not> force
     then s
     else (case getProcessedData s False of
             (processedData, errs) \<Rightarrow>
               s\<lparr> cropped := pd_cropped processedData,
                  cropStart := Some (pd_cropStart processedData),
                  processed_unsliced := hands_on_arrays s False,
                  processedXData_slice := pd_xData processedData,
                  processedYData_slice := pd_yData processedData,
                  closestPointRange := pd_closestPointRange processedData,
                  basePointRange := pd_closestPointRange processedData,
                  errors := errors s @ errs \<rparr>))"

subsection \<open>generatePoints\<close>

text \<open>\<open>splat\<close> of Core/Utilities: an array is itself, anything else a one-element array.\<close>

fun splat :: "jsval \<Rightarrow> jsval list" where
  "splat (Arr vs) = vs"
| "splat v = [v]"

text \<open>
  One iteration of the first loop of \<open>generatePoints\<close>, at index \<open>i\<close>, on the arrays
  \<open>data\<close> and \<open>points\<close> and the store. A new point is a new object of the store. In a
  series with grouped data every point is made anew from the processed arrays (the group
  metadata that the data-grouping module attaches to it is not part of the model).
\<close>

definition gp_step ::
  "series \<Rightarrow> nat \<Rightarrow> nat \<Rightarrow> nat
     \<Rightarrow> ref option list \<times> ref option list \<times> point list
     \<Rightarrow> ref option list \<times> ref option list \<times> point list" where
  "gp_step s cropStart' groupCropStartIndex i st =
    (case st of (data', points', h) \<Rightarrow>
      (let cursor = cropStart' + i;
           (point, data'', h') =
             (if \<not> hasGroupedData s then
                (let point = arr_get None data' (int cursor)
                 in if point = None \<and> arr_at (opt_data s) (int cursor) \<noteq> Undefined
                    then (Some (length h),
                          arr_set None data' (int cursor) (Some (length h)),
                          h @ [pointInit (arr_at (opt_data s) (int cursor))
                                 (arr_at (processedXData s) (int i))])
                    else (point, data', h))
              else (Some (length h), data',
                    h @ [pointInit (Arr (arr_at (processedXData s) (int i)
                                          # splat (arr_at (processedYData s) (int i))))
                           Undefined]))
       in if point \<noteq> None
          then (data'',
                arr_set None points' (int i) point,
                heap_upd (\<lambda>p. p\<lparr>pt_index :=
                           Some (if hasGroupedData s then groupCropStartIndex + i else cursor)\<rparr>)
                  point h')
          else (data'', points', h')))"

text \<open>
  The second loop hides the points that were cropped away: it walks \<open>data\<close> and, where
  the index reaches \<open>cropStart\<close>, jumps over the processed range.
\<close>

function release_loop ::
  "nat \<Rightarrow> nat \<Rightarrow> bool \<Rightarrow> ref option list \<Rightarrow> nat \<Rightarrow> point list \<Rightarrow> point list" where
  "release_loop cropStart' processedDataLength grouped data' i h =
    (if i < length data' then
       (let i' = (if i = cropStart' \<and> \<not> grouped then i + processedDataLength else i)
        in release_loop cropStart' processedDataLength grouped data' (Suc i')
             (heap_upd (\<lambda>p. (destroyElements p)\<lparr>plotX := None\<rparr>) (arr_get None data' (int i')) h))
     else h)"
  by pat_completeness auto
termination
  by (relation "measure (\<lambda>(c, n, g, d, i, h). length d - i)") auto

declare release_loop.simps [simp del]

text \<open>
  \<open>generatePoints\<close> sets \<open>series.data\<close> and \<open>series.points\<close>. (\<open>series.data\<close> is an
  array from the first \<open>setData\<close> on; the state before it, in which \<open>generatePoints\<close>
  would first create the array, is not modelled. \<open>options.keys\<close> is set aside and
  restored, with no effect on the state.)
\<close>

definition generatePoints :: "series \<Rightarrow> series" where
  "generatePoints s =
    (let processedDataLength = length (processedXData s);
         cropStart' = (case cropStart s of Some c \<Rightarrow> c | None \<Rightarrow> 0);
         groupCropStartIndex = (if groupAll s then cropStart' else 0)
     in case fold (gp_step s cropStart' groupCropStartIndex) [0..<processedDataLength]
               (data s, [], heap s) of
          (data', points', h) \<Rightarrow>
            s\<lparr> data := data',
               points := Some points',
               heap := (if processedDataLength \<noteq> length data' \<or> hasGroupedData s
                        then release_loop cropStart' processedDataLength (hasGroupedData s) data' 0 h
                        else h) \<rparr>)"

subsection \<open>sortData\<close>

text \<open>
  Modelled from the spec: \<open>getNestedProperty\<close> of Core/Utilities, for a sort key that
  names a property of the options object (default \<open>y\<close>).
\<close>

definition getNestedProperty :: "string \<Rightarrow> obj \<Rightarrow> jsval" where
  "getNestedProperty path ob = obj_get ob path"

definition getPointOptionsObject :: "jsval \<Rightarrow> obj" where
  "getPointOptionsObject pointOptions =
    (if defined pointOptions then optionsToObject pointOptions else [])"

text \<open>The comparator of \<open>sortData\<close>.\<close>

definition sort_compare :: "string \<Rightarrow> obj \<Rightarrow> obj \<Rightarrow> real option" where
  "sort_compare key a b =
    (let aValue = getNestedProperty key a; bValue = getNestedProperty key b
     in Some (if js_lt bValue aValue then - 1 else if js_gt bValue aValue then 1 else 0))"

text \<open>
  \<open>sortData\<close> turns every entry into an options object carrying its \<open>index\<close>, sorts a
  copy of the array and writes into every object its position in the sorted copy. The
  copy shares the objects with \<open>data\<close>: the objects are kept in a store (the list
  \<open>indexed_options\<close>, an object's reference being its position in \<open>data\<close>) and the
  sorted copy is the list \<open>sorted_refs\<close> of references. (The entries of \<open>data\<close> are
  taken to be distinct objects.)
\<close>

definition indexed_options :: "jsval list \<Rightarrow> obj list" where
  "indexed_options data' =
    map (\<lambda>(i, pointOptions). obj_set (getPointOptionsObject pointOptions) ''index'' (Num (real i)))
      (zip [0..<length data'] data')"

definition the_sortKey :: "series \<Rightarrow> string" where
  "the_sortKey s = (case sortKey s of None \<Rightarrow> ''y'' | Some k \<Rightarrow> if k = [] then ''y'' else k)"

definition sorted_refs :: "series \<Rightarrow> jsval list \<Rightarrow> nat list" where
  "sorted_refs s data' =
    js_sort (\<lambda>a b. sort_compare (the_sortKey s) (indexed_options data' ! a) (indexed_options data' ! b))
      [0..<length data']"

definition assign_x :: "nat list \<Rightarrow> obj list \<Rightarrow> obj list" where
  "assign_x refs objs =
    fold (\<lambda>(i, r) os. os[r := obj_set (os ! r) ''x'' (Num (real i))]) (zip [0..<length refs] refs) objs"

text \<open>The array that \<open>sortData\<close> returns (\<open>data\<close>), and its local \<open>sortedData\<close>.\<close>

definition sortData :: "series \<Rightarrow> jsval list \<Rightarrow> jsval list" where
  "sortData s data' = map Obj (assign_x (sorted_refs s data') (indexed_options data'))"

definition sortedData :: "series \<Rightarrow> jsval list \<Rightarrow> jsval list" where
  "sortedData s data' = map (\<lambda>r. sortData s data' ! r) (sorted_refs s data')"

subsection \<open>removePoint and addPoint\<close>

text \<open>
  \<open>if (redraw) chart.redraw(animation)\<close>. The chart and its \<open>redraw\<close> are an external
  collaborator of the series, not among the sources: what it does to the series is the
  parameter \<open>chartRedraw\<close>.
\<close>

definition redraw_chart :: "bool \<Rightarrow> (series \<Rightarrow> series) \<Rightarrow> series \<Rightarrow> series" where
  "redraw_chart redraw chartRedraw s = (if redraw then chartRedraw s else s)"

text \<open>
  \<open>removePoint\<close>: the default action of the point's \<open>remove\<close> event is the local
  function \<open>remove\<close>, which is run (no handler of the application prevents it), up to
  the redraw that ends it: a call \<open>removePoint(i, redraw)\<close> is
  \<open>redraw_chart redraw chartRedraw (removePoint i s)\<close>.
\<close>

definition removePoint :: "int \<Rightarrow> series \<Rightarrow> series" where
  "removePoint i s =
    (let point = arr_get None (data s) i;
         s1 = s\<lparr> points := (case points s of
                               None \<Rightarrow> None
                             | Some ps \<Rightarrow> if length ps = length (data s)
                                          then Some (splice ps i 1 []) else Some ps) \<rparr>;
         s2 = s1\<lparr> data := splice (data s1) i 1 [] \<rparr>;
         s3 = s2\<lparr> opt_data := splice (opt_data s2) i 1 [] \<rparr>;
         s4 = updateParallelArrays [] (Call (Splice i 1 [])) s3;
         s5 = s4\<lparr> heap := heap_upd destroy point (heap s4) \<rparr>
     in s5\<lparr> isDirty := True, isDirtyData := True \<rparr>)"

text \<open>
  The loop \<open>while (i && xData[i - 1] > x) i--\<close> of \<open>addPoint\<close>, started at \<open>i\<close>.
\<close>

fun insertion_index :: "jsval list \<Rightarrow> jsval \<Rightarrow> nat \<Rightarrow> nat" where
  "insertion_index xs x 0 = 0"
| "insertion_index xs x (Suc k) = (if js_gt (arr_at xs (int k)) x then insertion_index xs x k else Suc k)"

text \<open>
  The insertion point that \<open>addPoint\<close> works out for the point: whether it lies in the
  middle of the sorted data (\<open>isInTheMiddle\<close>) and its index \<open>i\<close>.
\<close>

definition insertion_point :: "obj \<Rightarrow> series \<Rightarrow> bool \<times> nat" where
  "insertion_point point s =
    (let x = obj_get point ''x'';
         len = length (xData s);
         isInTheMiddle = (requireSorting s \<and> js_lt x (arr_at (xData s) (int len - 1)))
     in (isInTheMiddle, if isInTheMiddle then insertion_index (xData s) x len else len))"

text \<open>
  \<open>addPoint options redraw shift\<close>, without the names of a category axis; \<open>redraw\<close> is
  the argument after \<open>pick(redraw, true)\<close>. \<open>Point.remove\<close>, by which the first point is
  shifted off where it is materialised, removes the point at its position in
  \<open>series.data\<close>.
\<close>

definition addPoint ::
  "(series \<Rightarrow> series) \<Rightarrow> jsval \<Rightarrow> bool \<Rightarrow> bool \<Rightarrow> series \<Rightarrow> series" where
  "addPoint chartRedraw options redraw shift s =
    (case applyOptions options s of
       (point, s1) \<Rightarrow>
         (case insertion_point point s1 of
            (isInTheMiddle, i) \<Rightarrow>
              (let s2 = updateParallelArrays point (Call (Splice (int i) 0 [Num 0])) s1;
                   s3 = updateParallelArrays point (AtIndex (int i)) s2;
                   s4 = s3\<lparr> opt_data := splice (opt_data s3) (int i) 0 [options] \<rparr>;
                   s5 = (if isInTheMiddle
                         then processData False (s4\<lparr> data := splice (data s4) (int i) 0 [None] \<rparr>)
                         else s4);
                   s6 = (if legendType s5 = Some ''point'' then generatePoints s5 else s5);
                   s7 = (if shift then
                           (if arr_get None (data s6) 0 \<noteq> None then removePoint 0 s6
                            else (let t1 = s6\<lparr> data := tl (data s6) \<rparr>;
                                      t2 = updateParallelArrays point (Call Shift) t1
                                  in t2\<lparr> opt_data := tl (opt_data t2) \<rparr>))
                         else s6)
               in redraw_chart redraw chartRedraw (s7\<lparr> isDirty := True, isDirtyData := True \<rparr>))))"

subsection \<open>setData\<close>

fun getFirstValidPoint :: "jsval list \<Rightarrow> jsval" where
  "getFirstValidPoint [] = Null"
| "getFirstValidPoint (d # ds) = (if d = Null then getFirstValidPoint ds else d)"

text \<open>
  The exception that the turbo loops over arrays can raise: a \<open>TypeError\<close>, for an
  entry that is \<open>null\<close> or \<open>undefined\<close> or has no \<open>slice\<close>. \<open>js_elem\<close> is \<open>pt[i]\<close> and
  \<open>js_slice\<close> is \<open>pt.slice(a, b)\<close>; \<open>None\<close> means that the expression throws. (Numeric
  property names of plain objects are not modelled: \<open>pt[i]\<close> of an object is
  \<open>undefined\<close>.)
\<close>

datatype js_exn = TypeError

fun js_elem :: "jsval \<Rightarrow> nat \<Rightarrow> jsval option" where
  "js_elem (Arr vs) i = Some (arr_at vs (int i))"
| "js_elem (Str cs) i = Some (if i < length cs then Str [cs ! i] else Undefined)"
| "js_elem Undefined i = None"
| "js_elem Null i = None"
| "js_elem v i = Some Undefined"

fun js_slice :: "jsval \<Rightarrow> nat \<Rightarrow> nat \<Rightarrow> jsval option" where
  "js_slice (Arr vs) a b = Some (Arr (slice vs a b))"
| "js_slice (Str cs) a b = Some (Str (slice cs a b))"
| "js_slice v a b = None"

text \<open>The turbo loop for numbers: \<open>xData[i] = this.autoIncrement(); yData[i] = data[i]\<close>.\<close>

definition turbo_numbers :: "jsval list \<Rightarrow> series \<Rightarrow> series" where
  "turbo_numbers data' s =
    fold (\<lambda>i s. case autoIncrement s of
                  (x, s') \<Rightarrow> s'\<lparr> xData := arr_set Undefined (xData s') (int i) (Num x),
                                yData := arr_set Undefined (yData s') (int i) (data' ! i) \<rparr>)
      [0..<length data'] s"

text \<open>
  The two turbo loops for arrays, over the entries that remain, the first of them at
  index \<open>i\<close>: with \<open>valueCount\<close> values per point, and with one x and one y.
\<close>

fun turbo_arrays_values :: "nat \<Rightarrow> jsval list \<Rightarrow> nat \<Rightarrow> series \<Rightarrow> js_exn option \<times> series" where
  "turbo_arrays_values valueCount [] i s = (None, s)"
| "turbo_arrays_values valueCount (pt # rest) i s =
     (case js_elem pt 0 of
        None \<Rightarrow> (Some TypeError, s)
      | Some x \<Rightarrow>
          (let s1 = s\<lparr> xData := arr_set Undefined (xData s) (int i) x \<rparr>
           in case js_slice pt 1 (valueCount + 1) of
                None \<Rightarrow> (Some TypeError, s1)
              | Some y \<Rightarrow>
                  turbo_arrays_values valueCount rest (Suc i)
                    (s1\<lparr> yData := arr_set Undefined (yData s1) (int i) y \<rparr>)))"

fun turbo_arrays_xy :: "nat \<Rightarrow> nat \<Rightarrow> jsval list \<Rightarrow> nat \<Rightarrow> series \<Rightarrow> js_exn option \<times> series" where
  "turbo_arrays_xy indexOfX indexOfY [] i s = (None, s)"
| "turbo_arrays_xy indexOfX indexOfY (pt # rest) i s =
     (case js_elem pt indexOfX of
        None \<Rightarrow> (Some TypeError, s)
      | Some x \<Rightarrow>
          (let s1 = s\<lparr> xData := arr_set Undefined (xData s) (int i) x \<rparr>
           in case js_elem pt indexOfY of
                None \<Rightarrow> (Some TypeError, s1)
              | Some y \<Rightarrow>
                  turbo_arrays_xy indexOfX indexOfY rest (Suc i)
                    (s1\<lparr> yData := arr_set Undefined (yData s1) (int i) y \<rparr>)))"

text \<open>\<open>keys.indexOf(k)\<close>, with the default where the key is missing.\<close>

fun index_of :: "string \<Rightarrow> string list \<Rightarrow> nat \<Rightarrow> nat option" where
  "index_of k [] i = None"
| "index_of k (a # as) i = (if a = k then Some i else index_of k as (Suc i))"

text \<open>The generic loop: one options object per entry that is not \<open>undefined\<close>.\<close>

definition generic_path :: "jsval list \<Rightarrow> series \<Rightarrow> series" where
  "generic_path data' s =
    fold (\<lambda>i s. if data' ! i \<noteq> Undefined
                then (case applyOptions (data' ! i) s of
                        (pt, s') \<Rightarrow> updateParallelArrays pt (AtIndex (int i)) s')
                else s)
      [0..<length data'] s"

text \<open>The turbo branch, entered where \<open>turboThreshold && dataLength > turboThreshold\<close>.\<close>

definition turbo_path :: "jsval list \<Rightarrow> series \<Rightarrow> js_exn option \<times> series" where
  "turbo_path data' s =
    (let firstPoint = getFirstValidPoint data'
     in if isNumber firstPoint then (None, turbo_numbers data' s)
        else if isArray firstPoint then
          (case pointArrayMap s of
             Some (m # ms) \<Rightarrow> turbo_arrays_values (length (m # ms)) data' 0 s
           | _ \<Rightarrow>
               (case keys s of
                  Some ks \<Rightarrow>
                    turbo_arrays_xy
                      (case index_of ''x'' ks 0 of Some a \<Rightarrow> a | None \<Rightarrow> 0)
                      (case index_of ''y'' ks 0 of Some a \<Rightarrow> a | None \<Rightarrow> 1) data' 0 s
                | None \<Rightarrow> turbo_arrays_xy 0 1 data' 0 s))
        else (None, error 12 False s))"

text \<open>
  The body of \<open>if (!updatedData)\<close>: the full replacement, which begins by setting the
  length of every parallel array to 0 (\<open>reset_arrays\<close>). \<open>oldData\<close> is \<open>series.points\<close>
  as it was when \<open>setData\<close> was entered. (\<open>sortData\<close> keeps the length of the array, so
  \<open>dataLength\<close> is the length of \<open>data\<close> before and after it.)
\<close>

definition reset_arrays :: "series \<Rightarrow> series" where
  "reset_arrays s = fold (\<lambda>key. set_array key []) (parallelArrays s) s"

definition replace_data :: "ref option list option \<Rightarrow> jsval list \<Rightarrow> series \<Rightarrow> js_exn option \<times> series" where
  "replace_data oldData data' s =
    (let s1 = s\<lparr> xIncrement := None, colorCounter := 0 \<rparr>;
         s2 = reset_arrays s1
     in case (if turboThreshold s2 \<noteq> 0 \<and> length data' > turboThreshold s2
              then turbo_path data' s2 else (None, generic_path data' s2)) of
          (Some e, s3) \<Rightarrow> (Some e, s3)
        | (None, s3) \<Rightarrow>
            (let s4 = (if isString (arr_at (yData s3) 0) then error 14 True s3 else s3);
                 s5 = s4\<lparr> data := [], opt_data := data' \<rparr>;
                 s6 = s5\<lparr> heap := fold (heap_upd destroy)
                                     (rev (case oldData of None \<Rightarrow> [] | Some ps \<Rightarrow> ps)) (heap s5) \<rparr>;
                 s7 = s6\<lparr> xAxis := map_option (\<lambda>a. a\<lparr>minRange := userMinRange a\<rparr>) (xAxis s6) \<rparr>
             in (None, s7\<lparr> isDirty := True, chart_isDirtyBox := True,
                          isDirtyData := (oldData \<noteq> None) \<rparr>)))"

text \<open>The condition under which \<open>setData\<close> first tries the point-wise update.\<close>

definition soft_update_gate :: "bool \<Rightarrow> jsval list \<Rightarrow> series \<Rightarrow> bool" where
  "soft_update_gate updatePoints data' s =
    (updatePoints \<and> length data' \<noteq> 0 \<and>
     (case points s of None \<Rightarrow> False | Some ps \<Rightarrow> length ps \<noteq> 0) \<and>
     cropped s \<noteq> Some True \<and> \<not> hasGroupedData s \<and> visible s \<and> \<not> isSeriesBoosting s)"

text \<open>
  \<open>setData data redraw animation updatePoints\<close>; \<open>redraw\<close> is the argument after
  \<open>pick(redraw, true)\<close>. The point-wise update \<open>updateData\<close> works through \<open>Point.update\<close>
  and \<open>Point.remove\<close> of Core/Series/Point, which are not among the sources: it is the
  parameter \<open>updateData\<close>, giving the series it left where it succeeded and \<open>None\<close> where
  it returns \<open>false\<close>. It returns \<open>false\<close> only where no entry of the data has an id or a
  numeric x (any such entry either sets \<open>hasUpdatedByKey\<close> or finds the lengths equal and
  sorting off, and then the update succeeds), so having updated no point: all it has
  written by then is \<open>this.xIncrement = null\<close>. The result is the exception raised, if
  any, and the series as the call left it.
\<close>

definition setData ::
  "(jsval list \<Rightarrow> series \<Rightarrow> series option) \<Rightarrow> (series \<Rightarrow> series) \<Rightarrow> jsval list \<Rightarrow> bool
     \<Rightarrow> bool \<Rightarrow> series \<Rightarrow> js_exn option \<times> series" where
  "setData updateData chartRedraw data0 redraw updatePoints s =
    (let oldData = points s;
         data' = (if dataSorting_enabled s then sortData s data0 else data0);
         (updatedData, s1) =
           (if soft_update_gate updatePoints data0 s
            then (case updateData data' s of
                    None \<Rightarrow> (False, s\<lparr> xIncrement := None \<rparr>)
                  | Some s' \<Rightarrow> (True, s'))
            else (False, s))
     in case (if \<not> updatedData then replace_data oldData data' s1 else (None, s1)) of
          (Some e, s2) \<Rightarrow> (Some e, s2)
        | (None, s2) \<Rightarrow>
            (None, redraw_chart redraw chartRedraw
                     (if legendType s2 = Some ''point''
                      then generatePoints (processData False s2) else s2)))"

subsection \<open>The k-d tree\<close>

definition kdAxisArray :: "string list" where
  "kdAxisArray = [''clientX'', ''plotY'']"

text \<open>\<open>series.kdAxisArray[depth % dimensions]\<close>; a missing element names no property.\<close>

definition kd_axis :: "nat \<Rightarrow> nat \<Rightarrow> string" where
  "kd_axis depth dimensions =
    (case drop (depth mod dimensions) kdAxisArray of a # as \<Rightarrow> a | [] \<Rightarrow> [])"

text \<open>\<open>p[axis]\<close> for a point and for a search object.\<close>

definition pt_coord :: "string \<Rightarrow> point \<Rightarrow> real option" where
  "pt_coord axis p =
    (if axis = ''clientX'' then clientX p else if axis = ''plotY'' then plotY p else None)"

definition so_coord :: "string \<Rightarrow> kdPointSearchObject \<Rightarrow> real option" where
  "so_coord axis q =
    (if axis = ''clientX'' then Some (so_clientX q)
     else if axis = ''plotY'' then so_plotY q else None)"

lemma length_sort_insert: "length (sort_insert cmp a bs) = Suc (length bs)"
  by (induction bs) (auto split: option.splits)

lemma length_js_sort: "length (js_sort cmp xs) = length xs"
  by (induction xs) (simp_all add: js_sort_def length_sort_insert)

text \<open>
  \<open>_kdtree\<close>: the points are sorted along the axis of this depth, the median is the
  node's point and the two slices around it make the subtrees.
\<close>

function kdtree :: "point list \<Rightarrow> nat \<Rightarrow> nat \<Rightarrow> kdnode" where
  "kdtree points' depth dimensions =
    (if length points' = 0 then Empty
     else (let axis = kd_axis depth dimensions;
               sorted' = js_sort (\<lambda>a b. js_minus (pt_coord axis a) (pt_coord axis b)) points';
               median = length points' div 2
           in KDNode (sorted' ! median)
                (kdtree (take median sorted') (depth + 1) dimensions)
                (kdtree (drop (median + 1) sorted') (depth + 1) dimensions)))"
  by pat_completeness auto
termination
  by (relation "measure (\<lambda>(ps, d, n). length ps)") (auto simp: length_js_sort)

declare kdtree.simps [simp del]

definition MAX_VALUE :: real where
  "MAX_VALUE = (2 ^ 53 - 1) * 2 ^ 971"

text \<open>
  \<open>setDistance\<close> writes the distance to the search object and its x part on the point.
\<close>

definition setDistance :: "kdPointSearchObject \<Rightarrow> point \<Rightarrow> point" where
  "setDistance p1 p2 =
    (let x = (case clientX p2 of Some b \<Rightarrow> Some ((so_clientX p1 - b) ^ 2) | None \<Rightarrow> None);
         y = (case (so_plotY p1, plotY p2) of
                (Some a, Some b) \<Rightarrow> Some ((a - b) ^ 2)
              | _ \<Rightarrow> None);
         r = (case x of Some v \<Rightarrow> v | None \<Rightarrow> 0) + (case y of Some v \<Rightarrow> v | None \<Rightarrow> 0)
     in p2\<lparr> pt_dist := Some (sqrt r),
            pt_distX := Some (case x of Some v \<Rightarrow> sqrt v | None \<Rightarrow> MAX_VALUE) \<rparr>)"

text \<open>\<open>p[kdComparer]\<close>, and \<open><\<close> on two numbers that may be unset.\<close>

definition kdComparer :: "bool \<Rightarrow> point \<Rightarrow> real option" where
  "kdComparer compareX p = (if compareX then pt_distX p else pt_dist p)"

definition opt_less :: "real option \<Rightarrow> real option \<Rightarrow> bool" where
  "opt_less a b = (case (a, b) of (Some x, Some y) \<Rightarrow> x < y | _ \<Rightarrow> False)"

text \<open>
  \<open>_search\<close>. The point returned carries the distances that \<open>setDistance\<close> wrote on it.
\<close>

fun search :: "kdPointSearchObject \<Rightarrow> bool \<Rightarrow> kdnode \<Rightarrow> nat \<Rightarrow> nat \<Rightarrow> point option" where
  "search q compareX Empty depth dimensions = None"
| "search q compareX (KDNode p l r) depth dimensions =
    (let point = setDistance q p;
         tdist = js_minus (so_coord (kd_axis depth dimensions) q)
                          (pt_coord (kd_axis depth dimensions) point);
         neg = opt_less tdist (Some 0);
         ret = (case (if neg then search q compareX l (depth + 1) dimensions
                      else search q compareX r (depth + 1) dimensions) of
                  None \<Rightarrow> point
                | Some nPoint1 \<Rightarrow>
                    if opt_less (kdComparer compareX nPoint1) (kdComparer compareX point)
                    then nPoint1 else point)
     in Some (if opt_less (map_option (\<lambda>t. sqrt (t * t)) tdist) (kdComparer compareX ret)
              then (case (if neg then search q compareX r (depth + 1) dimensions
                          else search q compareX l (depth + 1) dimensions) of
                      None \<Rightarrow> ret
                    | Some nPoint2 \<Rightarrow>
                        if opt_less (kdComparer compareX nPoint2) (kdComparer compareX ret)
                        then nPoint2 else ret)
              else ret))"

text \<open>
  \<open>getValidPoints points insideOnly allowNull\<close>; \<open>None\<close> for \<open>points\<close> is the default,
  the objects of \<open>series.points\<close>.
\<close>

definition series_points :: "series \<Rightarrow> point list" where
  "series_points s =
    (case points s of
       None \<Rightarrow> []
     | Some ps \<Rightarrow> concat (map (\<lambda>r. case r of None \<Rightarrow> []
                                   | Some a \<Rightarrow> if a < length (heap s) then [heap s ! a] else []) ps))"

definition getValidPoints :: "point list option \<Rightarrow> bool \<Rightarrow> bool \<Rightarrow> series \<Rightarrow> point list" where
  "getValidPoints points' insideOnly allowNull s =
    filter (\<lambda>point.
        if insideOnly \<and> \<not> isInsidePlot s (plotX point) (plotY point) then False
        else pt_visible point \<and> (allowNull \<or> \<not> isNull point))
      (case points' of Some ps \<Rightarrow> ps | None \<Rightarrow> series_points s)"

definition kdDimensions :: "series \<Rightarrow> nat" where
  "kdDimensions s = (if CHR ''y'' \<in> set (findNearestPointBy s) then 2 else 1)"

text \<open>
  \<open>buildKDTree\<close> marks the build as running, deletes the tree and hands \<open>startRecursive\<close>
  to \<open>syncTimeout\<close>: with \<open>kdNow\<close> or on a touchstart event it runs at once, otherwise
  one tick later, as a step of its own.
\<close>

definition startRecursive :: "series \<Rightarrow> series" where
  "startRecursive s =
    s\<lparr> kdTree := kdtree (getValidPoints None (\<not> directTouch s) False s)
                   (kdDimensions s) (kdDimensions s),
       buildingKdTree := False \<rparr>"

definition buildKDTree :: "bool \<Rightarrow> series \<Rightarrow> series" where
  "buildKDTree touchstart s =
    (let s1 = s\<lparr> buildingKdTree := True, kdTree := Empty \<rparr>
     in if kdNow s1 \<or> touchstart then startRecursive s1 else s1)"

definition searchKDTree ::
  "kdPointSearchObject \<Rightarrow> bool \<Rightarrow> bool \<Rightarrow> series \<Rightarrow> point option \<times> series" where
  "searchKDTree point compareX touchstart s =
    (let s1 = (if kdTree s = Empty \<and> \<not> buildingKdTree s then buildKDTree touchstart s else s)
     in (if kdTree s1 \<noteq> Empty
         then search point compareX (kdTree s1) (kdDimensions s1) (kdDimensions s1)
         else None, s1))"

subsection \<open>A series to start from\<close>


definition default_series :: series where
  "default_series =
    \<lparr> xData = [], yData = [], otherData = (\<lambda>key. []), parallelArrays = [''x'', ''y''],
      toYData = None, opt_data = [], data = [], points = None, heap = [],
      processed_unsliced = False, processedXData_slice = [], processedYData_slice = [],
      cropStart = None, cropped = None,
      closestPointRange = None, basePointRange = None, hasGroupedData = False,
      groupAll = False, xIncrement = None, pointInterval = None, opt_pointStart = None,
      opt_pointInterval = None, pointIntervalUnit = None, timeSet = (\<lambda>u t n. t),
      dateTime = (\<lambda>t. t), turboThreshold = 1000, cropThreshold = 300,
      pointArrayMap = None, keys = None, colorCounter = 0, isDirty = False,
      isDirtyData = False, chart_isDirtyBox = False, visible = True,
      isSeriesBoosting = False, legendType = None, errors = [],
      dataSorting_enabled = False, sortKey = None, xAxis = None, yAxis_isDirty = False,
      opt_getExtremesFromAll = False, getExtremesFromAll = False, isCartesian = True,
      sorted_flag = True, forceCrop = False, requireSorting = True, cropShoulder = 1,
      kdTree = Empty, buildingKdTree = False, findNearestPointBy = ''x'',
      directTouch = False, kdNow = False, isInsidePlot = (\<lambda>x y. True) \<rparr>"


subsection \<open>Concrete series\<close>


text \<open>
  Whether the processed x values are unsorted at index \<open>i\<close>: the distance to the value
  before is negative.
\<close>

definition unsorted_at :: "axis option \<Rightarrow> jsval list \<Rightarrow> nat \<Rightarrow> bool" where
  "unsorted_at ax pxs i = (case distance ax pxs i of Some d \<Rightarrow> d < 0 | None \<Rightarrow> False)"

text \<open>A series with the x value 1 twice, and one whose x values go down twice.\<close>

definition zero_delta_series :: series where
  "zero_delta_series = default_series\<lparr> xData := [Num 1, Num 1], yData := [Num 5, Num 6] \<rparr>"

definition unsorted_series :: series where
  "unsorted_series =
     default_series\<lparr> xData := [Num 3, Num 1, Num 2, Num 0], yData := [Num 5, Num 6, Num 7, Num 8] \<rparr>"

text \<open>
  The parallel-array invariant: the arrays of all declared dimensions have the same
  length. \<open>run_ops\<close> is a sequence of calls of \<open>updateParallelArrays\<close>, and
  \<open>pa_result\<close> what the function \<open>fn\<close> of one call leaves in the array of its key.
\<close>

definition aligned :: "series \<Rightarrow> bool" where
  "aligned s =
    (\<forall>k\<in>set (parallelArrays s). \<forall>k'\<in>set (parallelArrays s).
       length (get_array s k) = length (get_array s k'))"

definition run_ops :: "(obj \<times> pa_arg) list \<Rightarrow> series \<Rightarrow> series" where
  "run_ops ops s = fold (\<lambda>(point, i). updateParallelArrays point i) ops s"

definition pa_result :: "obj \<Rightarrow> pa_arg \<Rightarrow> series \<Rightarrow> string \<Rightarrow> jsval list" where
  "pa_result point i s key = get_array (pa_fn point i key s) key"

text \<open>A series with a third dimension, as a bubble series declares it.\<close>

definition bubble_series :: series where
  "bubble_series =
    default_series
      \<lparr> parallelArrays := [''x'', ''y'', ''z''],
        xData := [Num 0, Num 1], yData := [Num 5, Num 6],
        otherData := (\<lambda>key. if key = ''z'' then [Num 9, Num 8] else []) \<rparr>"

text \<open>
  The index at which \<open>addPoint options\<close> inserts its point into the series \<open>s\<close>, and
  whether that is in the middle.
\<close>

definition added_index :: "jsval \<Rightarrow> series \<Rightarrow> nat" where
  "added_index options s =
    (case applyOptions options s of (point, s1) \<Rightarrow> snd (insertion_point point s1))"

definition added_in_the_middle :: "jsval \<Rightarrow> series \<Rightarrow> bool" where
  "added_in_the_middle options s =
    (case applyOptions options s of (point, s1) \<Rightarrow> fst (insertion_point point s1))"

text \<open>
  The series as \<open>addPoint options\<close> has it once the point is spliced into the parallel
  arrays and the raw options.
\<close>

definition inserted :: "jsval \<Rightarrow> series \<Rightarrow> series" where
  "inserted options s =
    (case applyOptions options s of
       (point, s1) \<Rightarrow>
         (let i = snd (insertion_point point s1);
              s2 = updateParallelArrays point (Call (Splice (int i) 0 [Num 0])) s1;
              s3 = updateParallelArrays point (AtIndex (int i)) s2
          in s3\<lparr> opt_data := splice (opt_data s3) (int i) 0 [options] \<rparr>))"

text \<open>
  What a chart's redraw has to leave alone for the parallel arrays to be the business of
  the series only: the arrays and their declaration. And a redraw of the chart as far as
  one series goes, for the examples: the data is processed, the points are generated and
  the series is clean.
\<close>

definition keeps_arrays :: "(series \<Rightarrow> series) \<Rightarrow> bool" where
  "keeps_arrays chartRedraw =
    (\<forall>t. get_array (chartRedraw t) = get_array t \<and>
         parallelArrays (chartRedraw t) = parallelArrays t)"

definition plain_redraw :: "series \<Rightarrow> series" where
  "plain_redraw s = (generatePoints (processData False s))\<lparr> isDirty := False, isDirtyData := False \<rparr>"

text \<open>
  A cropped series: five raw points, of which the points at the raw indices 1 to 3 are
  materialised and visible.
\<close>

definition cropped_series :: series where
  "cropped_series =
    default_series
      \<lparr> xData := map Num [0, 1, 2, 3, 4], yData := map Num [5, 6, 7, 8, 9],
        opt_data := map Num [5, 6, 7, 8, 9],
        heap := [pointInit (Num 6) (Num 1), pointInit (Num 7) (Num 2), pointInit (Num 8) (Num 3)],
        data := [None, Some 0, Some 1, Some 2],
        points := Some [Some 0, Some 1, Some 2],
        cropStart := Some 1, cropped := Some True \<rparr>"

text \<open>
  A series right after \<open>setData\<close> without redraw: three raw points, none materialised.
\<close>

definition fresh_series :: series where
  "fresh_series =
    default_series
      \<lparr> xData := map Num [1, 2, 3], yData := map Num [5, 6, 7],
        opt_data := map Num [5, 6, 7], isDirty := True \<rparr>"

text \<open>
  An \<open>updateData\<close> that gives up and leaves the series as it is. A series with two points
  and a turbo threshold of 2, none of its points materialised; the same with a legend by
  point, as a pie has it.
\<close>

definition no_update :: "jsval list \<Rightarrow> series \<Rightarrow> series option" where
  "no_update data' s = None"

definition turbo_series :: series where
  "turbo_series =
    default_series
      \<lparr> xData := map Num [0, 1], yData := map Num [5, 6], opt_data := map Num [5, 6],
        turboThreshold := 2 \<rparr>"

definition pie_series :: series where
  "pie_series = turbo_series\<lparr> legendType := Some ''point'' \<rparr>"

text \<open>
  A pie with its two points materialised, as \<open>setData\<close> leaves a series with a legend by
  point: nothing is cropped, so the processed arrays are the raw arrays.
\<close>

definition full_pie :: series where
  "full_pie =
    pie_series
      \<lparr> heap := [(pointInit (Num 5) (Num 0))\<lparr> pt_index := Some 0 \<rparr>,
                 (pointInit (Num 6) (Num 1))\<lparr> pt_index := Some 1 \<rparr>],
        data := [Some 0, Some 1], points := Some [Some 0, Some 1],
        processed_unsliced := True, cropStart := Some 0,
        isCartesian := False, requireSorting := False \<rparr>"

text \<open>
  Two series with a turbo threshold of 2: one with data sorting enabled, and one of a
  range type, whose \<open>toYData\<close> gives the pair of \<open>low\<close> and \<open>high\<close>.
\<close>

definition sorting_series :: series where
  "sorting_series = default_series\<lparr> turboThreshold := 2, dataSorting_enabled := True \<rparr>"

definition range_series :: series where
  "range_series =
    default_series
      \<lparr> turboThreshold := 2,
        toYData := Some (\<lambda>point. Arr [obj_get point ''low'', obj_get point ''high'']) \<rparr>"

text \<open>
  Two series states that differ at most in the arrays of further dimensions and in the
  turbo threshold.
\<close>

definition same_xy :: "series \<Rightarrow> series \<Rightarrow> bool" where
  "same_xy s t = (\<exists>other threshold. t = s\<lparr> otherData := other, turboThreshold := threshold \<rparr>)"

text \<open>
  The number by which \<open>sortData\<close> sorts the entry at position \<open>r\<close> of \<open>data\<close>, where
  its sort key is a number.
\<close>

definition sort_value :: "series \<Rightarrow> jsval list \<Rightarrow> nat \<Rightarrow> real" where
  "sort_value s data' r =
    (case getNestedProperty (the_sortKey s) (indexed_options data' ! r) of Num v \<Rightarrow> v | _ \<Rightarrow> 0)"


definition first_cursor :: "series \<Rightarrow> nat" where
  "first_cursor s = (case cropStart s of Some c \<Rightarrow> c | None \<Rightarrow> 0)"



text \<open>
  The entry of an array of points at an index: the point, or none at a hole and beyond
  the end. The state of the first loop of \<open>generatePoints\<close> after \<open>k\<close> iterations, as
  far as the arrays go (\<open>gp_shape\<close>) and as far as the objects go (\<open>gp_heap\<close>).
\<close>

definition entry :: "ref option list \<Rightarrow> nat \<Rightarrow> ref option" where
  "entry xs j = arr_get None xs (int j)"

definition gp_shape ::
  "series \<Rightarrow> nat \<Rightarrow> nat \<Rightarrow> ref option list \<times> ref option list \<times> point list \<Rightarrow> bool" where
  "gp_shape s c k st =
    (case st of (d, p, h) \<Rightarrow>
      length p \<le> k \<and> length p \<le> length d \<and>
      (\<forall>i<k. entry p i = entry d (c + i)) \<and>
      (\<forall>i<k. (entry d (c + i) \<noteq> None) =
               (entry (data s) (c + i) \<noteq> None \<or> arr_at (opt_data s) (int (c + i)) \<noteq> Undefined)) \<and>
      (\<forall>j. c + k \<le> j \<longrightarrow> entry d j = entry (data s) j) \<and>
      (\<forall>j r. entry (data s) j = Some r \<longrightarrow> entry d j = Some r) \<and>
      (\<forall>j. entry d j \<noteq> None \<longrightarrow> entry (data s) j \<noteq> None \<or> (c \<le> j \<and> j < c + k)) \<and>
      length (data s) \<le> length d \<and>
      (length (data s) < length d \<longrightarrow> entry d (length d - 1) \<noteq> None))"



text \<open>
  Nearest-neighbour search as the specification words it: an exhaustive linear scan that
  keeps the first point at the least distance, under the absolute x-distance or the
  Euclidean distance to the search position. A search position without \<open>plotY\<close> has
  only its x-distance. \<open>spec_metric\<close> is the distance the specification names for a
  mode, \<open>nearest_metric\<close> the one the comparison of \<open>searchKDTree\<close> reads: \<open>distX\<close> with
  \<open>compareX\<close>, \<open>dist\<close> otherwise.
\<close>

definition coord :: "string \<Rightarrow> point \<Rightarrow> real" where
  "coord axis p = (case pt_coord axis p of Some v \<Rightarrow> v | None \<Rightarrow> 0)"

definition x_distance :: "kdPointSearchObject \<Rightarrow> point \<Rightarrow> real" where
  "x_distance q p = \<bar>so_clientX q - coord ''clientX'' p\<bar>"

definition euclidean :: "kdPointSearchObject \<Rightarrow> point \<Rightarrow> real" where
  "euclidean q p =
    (case so_plotY q of
       Some qy \<Rightarrow> sqrt ((so_clientX q - coord ''clientX'' p) ^ 2 + (qy - coord ''plotY'' p) ^ 2)
     | None \<Rightarrow> x_distance q p)"

definition spec_metric :: "nat \<Rightarrow> bool \<Rightarrow> kdPointSearchObject \<Rightarrow> point \<Rightarrow> real" where
  "spec_metric dimensions compareX q =
    (if compareX \<or> dimensions = 1 then x_distance q else euclidean q)"

definition nearest_metric :: "bool \<Rightarrow> kdPointSearchObject \<Rightarrow> point \<Rightarrow> real" where
  "nearest_metric compareX q = (if compareX then x_distance q else euclidean q)"

definition scan_step :: "(point \<Rightarrow> real) \<Rightarrow> point \<Rightarrow> point option \<Rightarrow> point option" where
  "scan_step m p best =
    (case best of None \<Rightarrow> Some p | Some b \<Rightarrow> if m p < m b then Some p else Some b)"

definition linear_scan :: "(point \<Rightarrow> real) \<Rightarrow> point list \<Rightarrow> point option" where
  "linear_scan m pts = fold (scan_step m) pts None"

text \<open>
  The points of a tree; a point with both pixel coordinates; a tree whose every node
  separates its subtrees along the axis of its depth; and the result of a search over a
  set of points: one of them, its distances set, none of the others nearer.
\<close>

fun set_kdnode :: "kdnode \<Rightarrow> point set" where
  "set_kdnode Empty = {}"
| "set_kdnode (KDNode p l r) = insert p (set_kdnode l \<union> set_kdnode r)"

definition located :: "point \<Rightarrow> bool" where
  "located p = (clientX p \<noteq> None \<and> plotY p \<noteq> None)"

fun kd_sorted :: "nat \<Rightarrow> nat \<Rightarrow> kdnode \<Rightarrow> bool" where
  "kd_sorted depth dimensions Empty = True"
| "kd_sorted depth dimensions (KDNode p l r) =
    ((\<forall>x\<in>set_kdnode l. coord (kd_axis depth dimensions) x \<le> coord (kd_axis depth dimensions) p) \<and>
     (\<forall>x\<in>set_kdnode r. coord (kd_axis depth dimensions) p \<le> coord (kd_axis depth dimensions) x) \<and>
     kd_sorted (depth + 1) dimensions l \<and> kd_sorted (depth + 1) dimensions r)"

definition best_of :: "bool \<Rightarrow> kdPointSearchObject \<Rightarrow> point set \<Rightarrow> point \<Rightarrow> bool" where
  "best_of compareX q S r =
    (\<exists>p\<in>S. r = setDistance q p \<and>
       (\<forall>p'\<in>S. nearest_metric compareX q p \<le> nearest_metric compareX q p'))"

text \<open>
  Points at pixel positions, and three series whose trees have been built: one searching
  by x and y, one by x only, and one by x and y over four points.
\<close>

definition point_at :: "real \<Rightarrow> real \<Rightarrow> point" where
  "point_at x y = (pointInit (Num y) (Num x))\<lparr> clientX := Some x, plotX := Some x, plotY := Some y \<rparr>"

definition kd_series :: "string \<Rightarrow> point list \<Rightarrow> series" where
  "kd_series mode pts =
    startRecursive
      (default_series
        \<lparr> heap := pts, points := Some (map Some [0..<length pts]), findNearestPointBy := mode,
          directTouch := True \<rparr>)"

text \<open>
  Two points searched by x only from a position beside the first; four points searched by
  x and y with \<open>compareX\<close>; and three points searched by x and y.
\<close>

definition beside_points :: "point list" where
  "beside_points = [point_at 0 0, point_at 3 4]"

definition beside_query :: kdPointSearchObject where
  "beside_query = \<lparr> so_clientX = 2, so_plotY = Some 0 \<rparr>"

definition above_points :: "point list" where
  "above_points = [point_at 0 10, point_at 5 0, point_at 100 0, point_at 200 0]"

definition above_query :: kdPointSearchObject where
  "above_query = \<lparr> so_clientX = 5, so_plotY = Some 60 \<rparr>"

definition plane_points :: "point list" where
  "plane_points = [point_at 0 0, point_at 3 4, point_at 10 0]"

definition plane_query :: kdPointSearchObject where
  "plane_query = \<lparr> so_clientX = 2, so_plotY = Some 3 \<rparr>"

section \<open>Properties\<close>

subsection \<open>Comparisons and arrays\<close>

lemma js_cmp_Num [simp]:
  "js_lt (Num a) (Num b) = (a < b)"
  "js_gt (Num a) (Num b) = (a > b)"
  "js_ge (Num a) (Num b) = (a \<ge> b)"
  by (simp_all add: js_lt_def js_gt_def js_ge_def)

lemma js_cmp_Undefined [simp]:
  "js_lt Undefined b = False" "js_lt a Undefined = False"
  "js_gt Undefined b = False" "js_gt a Undefined = False"
  "js_ge Undefined b = False" "js_ge a Undefined = False"
  by (simp_all add: js_lt_def js_gt_def js_ge_def split: option.splits)




subsection \<open>Cropping\<close>








lemma getProcessedData_crop:
  "pd_xData (fst (getProcessedData s f)) = fst (crop_step s f)"
  "pd_yData (fst (getProcessedData s f)) = fst (snd (crop_step s f))"
  "pd_cropStart (fst (getProcessedData s f)) = fst (snd (snd (crop_step s f)))"
  "pd_cropped (fst (getProcessedData s f)) = snd (snd (snd (crop_step s f)))"
  by (simp_all add: getProcessedData_def split: prod.splits)







subsection \<open>The closest point range and the unsorted-data warning\<close>

lemma closest_loop_errors:
  "snd (snd (closest_loop ax pxs k (c, t, e))) =
     e @ (if t \<and> (\<exists>i. 0 < i \<and> i \<le> k \<and> unsorted_at ax pxs i) then [(15, False)] else [])"
proof (induction k arbitrary: c t e)
  case 0
  then show ?case by simp
next
  case (Suc k)
  have split: "(\<exists>i. 0 < i \<and> i \<le> Suc k \<and> unsorted_at ax pxs i) \<longleftrightarrow>
      unsorted_at ax pxs (Suc k) \<or> (\<exists>i. 0 < i \<and> i \<le> k \<and> unsorted_at ax pxs i)"
    by (metis le_Suc_eq zero_less_Suc)
  show ?case
  proof (cases "distance ax pxs (Suc k)")
    case None
    then have "\<not> unsorted_at ax pxs (Suc k)" by (simp add: unsorted_at_def)
    with None show ?thesis
      by (simp add: Suc.IH split)
  next
    case (Some d)
    then have "unsorted_at ax pxs (Suc k) = (d < 0)" by (simp add: unsorted_at_def)
    with Some show ?thesis
      by (auto simp: Suc.IH split)
  qed
qed

lemma closest_loop_range:
  "fst (closest_loop ax pxs k (c, t, e)) = fst (closest_loop ax pxs k (c, t', e'))"
proof (induction k arbitrary: c t e t' e')
  case 0
  then show ?case by simp
next
  case (Suc k)
  show ?case
  proof (cases "distance ax pxs (Suc k)")
    case None
    then show ?thesis using Suc.IH by simp
  next
    case (Some d)
    then show ?thesis using Suc.IH by simp
  qed
qed

lemma getProcessedData_alt:
  "getProcessedData s f =
     (\<lparr> pd_xData = fst (crop_step s f),
        pd_yData = fst (snd (crop_step s f)),
        pd_cropped = snd (snd (snd (crop_step s f))),
        pd_cropStart = fst (snd (snd (crop_step s f))),
        pd_closestPointRange =
          fst (closest_loop (xAxis s) (fst (crop_step s f))
                 ((if length (fst (crop_step s f)) = 0 then 1 else length (fst (crop_step s f))) - 1)
                 (None, requireSorting s, [])) \<rparr>,
      snd (snd (closest_loop (xAxis s) (fst (crop_step s f))
                 ((if length (fst (crop_step s f)) = 0 then 1 else length (fst (crop_step s f))) - 1)
                 (None, requireSorting s, []))))"
  by (simp add: getProcessedData_def split_beta)

lemma loop_bound:
  "(\<exists>i. 0 < i \<and> i \<le> (if length px = 0 then 1 else length px) - 1 \<and> P i) \<longleftrightarrow>
   (\<exists>i. 0 < i \<and> i < length px \<and> P i)"
proof (cases "length px = 0")
  case True
  then show ?thesis by simp
next
  case False
  then obtain n where n: "length px = Suc n"
    by (cases "length px") auto
  have "\<And>i. i \<le> (if length px = 0 then 1 else length px) - 1 \<longleftrightarrow> i < length px"
    unfolding n by auto
  then show ?thesis by simp
qed

lemma getProcessedData_errors:
  "snd (getProcessedData s f) =
     (if requireSorting s \<and>
         (\<exists>i. 0 < i \<and> i < length (pd_xData (fst (getProcessedData s f))) \<and>
              unsorted_at (xAxis s) (pd_xData (fst (getProcessedData s f))) i)
      then [(15, False)] else [])"
  unfolding getProcessedData_alt
  by (simp only: fst_conv snd_conv closest_loop_errors loop_bound append_Nil
        processedDataObject.simps)

lemma getProcessedData_requireSorting:
  "fst (getProcessedData (s\<lparr>requireSorting := False\<rparr>) f) = fst (getProcessedData s f)"
proof -
  have g: "crop_gate (s\<lparr>requireSorting := False\<rparr>) f = crop_gate s f"
    by (simp add: crop_gate_def)
  have cd: "cropData (s\<lparr>requireSorting := False\<rparr>) xs ys lo hi sh = cropData s xs ys lo hi sh"
    for xs ys lo hi sh
    by (cases sh) (simp_all add: cropData_def)
  have c: "crop_step (s\<lparr>requireSorting := False\<rparr>) f = crop_step s f"
    unfolding crop_step_def g cd Let_def by simp
  show ?thesis
    unfolding getProcessedData_alt c
    using closest_loop_range[of "xAxis s" "fst (crop_step s f)" _ None False "[]" "requireSorting s" "[]"]
    by simp
qed

text \<open>
  C2 (as amended). In a processing pass the unsorted-data warning, error 15 without
  stop, is emitted exactly when sorting is required and some delta between consecutive
  processed x values is negative, and then once; a delta of zero emits nothing. The
  processed data returned is the same as the pass returns where sorting is not required.
\<close>

theorem unsorted_warning_once:
  "snd (getProcessedData s f) =
     (if requireSorting s \<and>
         (\<exists>i. 0 < i \<and> i < length (pd_xData (fst (getProcessedData s f))) \<and>
              unsorted_at (xAxis s) (pd_xData (fst (getProcessedData s f))) i)
      then [(15, False)] else []) \<and>
   fst (getProcessedData s f) = fst (getProcessedData (s\<lparr>requireSorting := False\<rparr>) f)"
  using getProcessedData_errors[of s f] getProcessedData_requireSorting[of s f] by simp

lemma unsorted_series_processed:
  "pd_xData (fst (getProcessedData unsorted_series False)) = [Num 3, Num 1, Num 2, Num 0]"
  by (simp add: getProcessedData_crop crop_step_def crop_gate_def unsorted_series_def
      default_series_def)

theorem unsorted_warning_once_witness:
  "requireSorting unsorted_series \<and>
   pd_xData (fst (getProcessedData unsorted_series False)) = [Num 3, Num 1, Num 2, Num 0] \<and>
   unsorted_at (xAxis unsorted_series) [Num 3, Num 1, Num 2, Num 0] 1 \<and>
   unsorted_at (xAxis unsorted_series) [Num 3, Num 1, Num 2, Num 0] 3 \<and>
   snd (getProcessedData unsorted_series False) = [(15, False)]"
proof -
  have r: "requireSorting unsorted_series"
    by (simp add: unsorted_series_def default_series_def)
  have u: "unsorted_at (xAxis unsorted_series) [Num 3, Num 1, Num 2, Num 0] 1"
    "unsorted_at (xAxis unsorted_series) [Num 3, Num 1, Num 2, Num 0] 3"
    by (simp_all add: unsorted_at_def distance_def arr_at_def arr_get_def unsorted_series_def
        default_series_def)
  have "\<exists>i. 0 < i \<and> i < length (pd_xData (fst (getProcessedData unsorted_series False))) \<and>
         unsorted_at (xAxis unsorted_series) (pd_xData (fst (getProcessedData unsorted_series False))) i"
    unfolding unsorted_series_processed using u(1) by (intro exI[of _ 1]) simp
  with r unsorted_warning_once[of unsorted_series False]
  have "snd (getProcessedData unsorted_series False) = [(15, False)]" by simp
  with r u unsorted_series_processed show ?thesis by simp
qed

text \<open>
  The claim as stated fails: between the x values 1 and 1 the delta is 0, not positive,
  sorting is required, and no warning is emitted.
\<close>

theorem zero_delta_no_warning:
  "requireSorting zero_delta_series \<and>
   pd_xData (fst (getProcessedData zero_delta_series False)) = [Num 1, Num 1] \<and>
   distance (xAxis zero_delta_series) [Num 1, Num 1] 1 = Some 0 \<and>
   snd (getProcessedData zero_delta_series False) = []"
  by (simp add: getProcessedData_def crop_step_def crop_gate_def zero_delta_series_def
      default_series_def distance_def arr_at_def arr_get_def)

subsection \<open>The parallel arrays\<close>

lemma get_set_array [simp]:
  "get_array (set_array k arr s) k' = (if k' = k then arr else get_array s k')"
  by (simp add: get_array_def set_array_def)

lemma set_array_frame [simp]:
  "parallelArrays (set_array k arr s) = parallelArrays s"
  "toYData (set_array k arr s) = toYData s"
  by (simp_all add: set_array_def)

lemma length_arr_set:
  "length (arr_set hole xs i v) = (if i < 0 then length xs else max (length xs) (nat i + 1))"
  by (auto simp: arr_set_def)

lemma length_splice_cong:
  "length xs = length ys \<Longrightarrow> length (splice xs a d items) = length (splice ys a d items)"
  by (simp add: splice_def Let_def)

lemma length_apply_call_cong:
  "length (apply_call c xs) = length (apply_call c ys)" if "length xs = length ys"
proof (cases c)
  case (Splice a d items)
  have "length (splice xs a d items) = length (splice ys a d items)"
    using that by (rule length_splice_cong)
  with Splice show ?thesis by simp
qed (use that in simp_all)

lemma pa_fn_get_array:
  "get_array (pa_fn point i key s) k' = (if k' = key then pa_result point i s key else get_array s k')"
  by (cases i) (simp_all add: pa_result_def Let_def)

lemma pa_fn_frame [simp]:
  "parallelArrays (pa_fn point i key s) = parallelArrays s"
  "toYData (pa_fn point i key s) = toYData s"
  by (cases i; simp add: Let_def) (cases i; simp add: Let_def)

lemma pa_result_length:
  "length (pa_result point i s k) = length (pa_result point i s' k')"
  if "length (get_array s k) = length (get_array s' k')"
proof (cases i)
  case (AtIndex n)
  then show ?thesis using that by (simp add: pa_result_def Let_def length_arr_set)
next
  case (Call c)
  have "length (apply_call c (get_array s k)) = length (apply_call c (get_array s' k'))"
    using that by (rule length_apply_call_cong)
  with Call show ?thesis by (simp add: pa_result_def)
qed

lemma pa_result_cong:
  "get_array s' k = get_array s k \<Longrightarrow> toYData s' = toYData s \<Longrightarrow>
   pa_result point i s' k = pa_result point i s k"
  by (cases i) (simp_all add: pa_result_def Let_def)

lemma fold_pa_fn_frame [simp]:
  "parallelArrays (fold (pa_fn point i) ks s) = parallelArrays s"
  "toYData (fold (pa_fn point i) ks s) = toYData s"
  by (induction ks arbitrary: s) simp_all

lemma fold_pa_fn_get_array:
  "distinct ks \<Longrightarrow>
   get_array (fold (pa_fn point i) ks s) k =
     (if k \<in> set ks then pa_result point i s k else get_array s k)"
proof (induction ks arbitrary: s k)
  case Nil
  then show ?case by simp
next
  case (Cons a ks)
  then have d: "distinct ks" and n: "a \<notin> set ks" by simp_all
  show ?case
  proof (cases "k = a")
    case True
    then show ?thesis using n by (simp add: Cons.IH[OF d] pa_fn_get_array)
  next
    case False
    then have "pa_result point i (pa_fn point i a s) k = pa_result point i s k"
      by (intro pa_result_cong) (simp_all add: pa_fn_get_array)
    then show ?thesis using False by (simp add: Cons.IH[OF d] pa_fn_get_array)
  qed
qed

lemma updateParallelArrays_get_array:
  "distinct (parallelArrays s) \<Longrightarrow>
   get_array (updateParallelArrays point i s) k =
     (if k \<in> set (parallelArrays s) then pa_result point i s k else get_array s k)"
  by (simp add: updateParallelArrays_def fold_pa_fn_get_array)

lemma updateParallelArrays_frame [simp]:
  "parallelArrays (updateParallelArrays point i s) = parallelArrays s"
  "toYData (updateParallelArrays point i s) = toYData s"
  by (simp_all add: updateParallelArrays_def)

lemma updateParallelArrays_aligned:
  assumes "distinct (parallelArrays s)" and "aligned s"
  shows "aligned (updateParallelArrays point i s)"
  using assms
  by (auto simp: aligned_def updateParallelArrays_get_array intro: pa_result_length)

lemma run_ops_aligned:
  "distinct (parallelArrays s) \<Longrightarrow> aligned s \<Longrightarrow>
   aligned (run_ops ops s) \<and> parallelArrays (run_ops ops s) = parallelArrays s"
proof (induction ops arbitrary: s)
  case Nil
  then show ?case by (simp add: run_ops_def)
next
  case (Cons a ops)
  obtain point i where a: "a = (point, i)" by (cases a)
  have "aligned (updateParallelArrays point i s)"
    using Cons.prems by (rule updateParallelArrays_aligned)
  moreover have "distinct (parallelArrays (updateParallelArrays point i s))"
    using Cons.prems by simp
  ultimately show ?case
    using Cons.IH[of "updateParallelArrays point i s"] by (simp add: run_ops_def a)
qed

text \<open>
  C6. Let the dimension arrays that the series declares in \<open>parallelArrays\<close> (each key
  once) start with equal lengths. Then after every operation of a sequence of calls of
  \<open>updateParallelArrays\<close>, each a write of a point's values at a numeric index or an
  array method (splice, shift, push, pop, unshift) applied in lockstep, all of them have
  equal lengths again.
\<close>

theorem parallel_arrays_aligned:
  assumes "distinct (parallelArrays s)" and "aligned s"
  shows "\<forall>n\<le>length ops. aligned (run_ops (take n ops) s)"
  using run_ops_aligned[OF assms] by simp

theorem parallel_arrays_aligned_witness:
  "distinct (parallelArrays bubble_series) \<and> aligned bubble_series \<and>
   aligned (run_ops [([(''x'', Num 7), (''y'', Num 3)], AtIndex 5),
                     ([], Call (Splice 1 2 [Num 0])),
                     ([], Call Shift)] bubble_series) \<and>
   xData (run_ops [([(''x'', Num 7), (''y'', Num 3)], AtIndex 5),
                   ([], Call (Splice 1 2 [Num 0])),
                   ([], Call Shift)] bubble_series)
     = [Num 0, Undefined, Undefined, Num 7]"
proof -
  have d: "distinct (parallelArrays bubble_series)"
    by (simp add: bubble_series_def default_series_def)
  have a: "aligned bubble_series"
    by (simp add: aligned_def bubble_series_def default_series_def get_array_def)
  have x: "xData (run_ops [([(''x'', Num 7), (''y'', Num 3)], AtIndex 5),
                   ([], Call (Splice 1 2 [Num 0])),
                   ([], Call Shift)] bubble_series)
     = [Num 0, Undefined, Undefined, Num 7]"
    by (simp add: run_ops_def updateParallelArrays_def bubble_series_def default_series_def
        get_array_def set_array_def arr_set_def splice_def obj_get_def Let_def eval_nat_numeral)
  from parallel_arrays_aligned[OF d a, of "[([(''x'', Num 7), (''y'', Num 3)], AtIndex 5),
                     ([], Call (Splice 1 2 [Num 0])),
                     ([], Call Shift)]", THEN spec, of 3]
  have "aligned (run_ops [([(''x'', Num 7), (''y'', Num 3)], AtIndex 5),
                     ([], Call (Splice 1 2 [Num 0])),
                     ([], Call Shift)] bubble_series)"
    by simp
  with d a x show ?thesis by simp
qed

subsection \<open>What the array operations leave alone\<close>

lemma set_array_only:
  "set_array k arr s =
     s\<lparr> xData := xData (set_array k arr s), yData := yData (set_array k arr s),
        otherData := otherData (set_array k arr s) \<rparr>"
  by (simp add: set_array_def)

lemma pa_fn_only:
  "pa_fn point i key s =
     s\<lparr> xData := xData (pa_fn point i key s), yData := yData (pa_fn point i key s),
        otherData := otherData (pa_fn point i key s) \<rparr>"
proof (cases i)
  case (AtIndex n)
  show ?thesis unfolding AtIndex pa_fn.simps Let_def by (rule set_array_only)
next
  case (Call c)
  show ?thesis unfolding Call pa_fn.simps by (rule set_array_only)
qed

lemma fold_pa_fn_only:
  "\<exists>xs ys os. fold (pa_fn point i) ks s = s\<lparr> xData := xs, yData := ys, otherData := os \<rparr>"
proof (induction ks arbitrary: s)
  case Nil
  have "s = s\<lparr> xData := xData s, yData := yData s, otherData := otherData s \<rparr>" by simp
  then show ?case by (metis fold_simps(1))
next
  case (Cons a ks)
  obtain xs ys os where
    "fold (pa_fn point i) ks (pa_fn point i a s)
       = (pa_fn point i a s)\<lparr> xData := xs, yData := ys, otherData := os \<rparr>"
    using Cons.IH by blast
  then have "fold (pa_fn point i) (a # ks) s = s\<lparr> xData := xs, yData := ys, otherData := os \<rparr>"
    by (subst (asm) (2) pa_fn_only) simp
  then show ?case by blast
qed

lemma updateParallelArrays_only:
  "\<exists>xs ys os. updateParallelArrays point i s = s\<lparr> xData := xs, yData := ys, otherData := os \<rparr>"
  unfolding updateParallelArrays_def by (rule fold_pa_fn_only)

lemma updateParallelArrays_fields [simp]:
  "points (updateParallelArrays point i s) = points s"
  "data (updateParallelArrays point i s) = data s"
  "opt_data (updateParallelArrays point i s) = opt_data s"
  "heap (updateParallelArrays point i s) = heap s"
  "legendType (updateParallelArrays point i s) = legendType s"
  "errors (updateParallelArrays point i s) = errors s"
  "xIncrement (updateParallelArrays point i s) = xIncrement s"
  using updateParallelArrays_only[of point i s] by auto


lemma get_array_other_fields [simp]:
  "get_array (s\<lparr>points := a\<rparr>) = get_array s"
  "get_array (s\<lparr>data := b\<rparr>) = get_array s"
  "get_array (s\<lparr>opt_data := c\<rparr>) = get_array s"
  "get_array (s\<lparr>heap := d\<rparr>) = get_array s"
  "get_array (s\<lparr>isDirty := e\<rparr>) = get_array s"
  "get_array (s\<lparr>isDirtyData := f\<rparr>) = get_array s"
  "get_array (s\<lparr>xIncrement := g\<rparr>) = get_array s"
  "get_array (s\<lparr>pointInterval := h\<rparr>) = get_array s"
  by (simp_all add: get_array_def fun_eq_iff)

lemma pa_result_Call: "pa_result point (Call c) s k = apply_call c (get_array s k)"
  by (simp add: pa_result_def)

lemma pa_result_AtIndex:
  "pa_result point (AtIndex i) s k =
     arr_set Undefined (get_array s k) i
       (case toYData s of Some f \<Rightarrow> if k = ''y'' then f point else obj_get point k
        | None \<Rightarrow> obj_get point k)"
  by (simp add: pa_result_def Let_def)

subsection \<open>removePoint\<close>

lemma removePoint_fields:
  "points (removePoint i s) =
     (case points s of None \<Rightarrow> None
      | Some ps \<Rightarrow> if length ps = length (data s) then Some (splice ps i 1 []) else Some ps)"
  "data (removePoint i s) = splice (data s) i 1 []"
  "opt_data (removePoint i s) = splice (opt_data s) i 1 []"
  by (simp_all add: removePoint_def Let_def)

lemma removePoint_arrays:
  assumes "distinct (parallelArrays s)"
  shows "get_array (removePoint i s) k =
     (if k \<in> set (parallelArrays s) then splice (get_array s k) i 1 [] else get_array s k)"
  using assms
  by (simp add: removePoint_def Let_def updateParallelArrays_get_array pa_result_Call)

text \<open>
  C10. Where \<open>series.points\<close> and \<open>series.data\<close> differ in length, \<open>removePoint\<close>
  leaves the array \<open>series.points\<close> as it is: the removal is applied to \<open>data\<close>, to
  \<open>options.data\<close> and to the parallel arrays only.
\<close>

theorem removePoint_leaves_points:
  assumes "points s = Some ps" and "length ps \<noteq> length (data s)"
  shows "points (removePoint i s) = Some ps \<and>
         data (removePoint i s) = splice (data s) i 1 [] \<and>
         opt_data (removePoint i s) = splice (opt_data s) i 1 [] \<and>
         (distinct (parallelArrays s) \<longrightarrow>
            (\<forall>k\<in>set (parallelArrays s). get_array (removePoint i s) k = splice (get_array s k) i 1 []))"
  using assms by (simp add: removePoint_fields removePoint_arrays)

theorem removePoint_leaves_points_witness:
  "points cropped_series = Some [Some 0, Some 1, Some 2] \<and>
   length [Some (0::nat), Some 1, Some 2] \<noteq> length (data cropped_series) \<and>
   points (removePoint 2 cropped_series) = Some [Some 0, Some 1, Some 2] \<and>
   data (removePoint 2 cropped_series) = [None, Some 0, Some 2] \<and>
   xData (removePoint 2 cropped_series) = map Num [0, 1, 3, 4]"
proof -
  have p: "points cropped_series = Some [Some 0, Some 1, Some 2]"
    by (simp add: cropped_series_def default_series_def)
  have l: "length [Some (0::nat), Some 1, Some 2] \<noteq> length (data cropped_series)"
    by (simp add: cropped_series_def default_series_def)
  have d: "distinct (parallelArrays cropped_series)" "''x'' \<in> set (parallelArrays cropped_series)"
    by (simp_all add: cropped_series_def default_series_def)
  have e: "splice (data cropped_series) 2 1 [] = [None, Some 0, Some 2]"
    "splice (get_array cropped_series ''x'') 2 1 [] = map Num [0, 1, 3, 4]"
    by (simp_all add: cropped_series_def default_series_def splice_def get_array_def)
  have x: "xData s = get_array s ''x''" for s by (simp add: get_array_def)
  from removePoint_leaves_points[OF p l, of 2] d e p l
  show ?thesis unfolding x by auto
qed


subsection \<open>generatePoints\<close>

lemma length_arr_set_nat:
  "length (arr_set hole d (int c) v) = max (length d) (Suc c)"
  by (auto simp: arr_set_def)

lemma nth_arr_set:
  assumes "j < length (arr_set hole d (int c) v)"
  shows "arr_set hole d (int c) v ! j = (if j = c then v else if j < length d then d ! j else hole)"
proof (cases "c < length d")
  case True
  then show ?thesis using assms by (simp add: arr_set_def)
next
  case False
  then have a: "arr_set hole d (int c) v = d @ replicate (c - length d) hole @ [v]"
    by (simp add: arr_set_def)
  have l: "j \<le> c" using assms False by (simp add: a)
  show ?thesis
  proof (cases "j < length d")
    case True
    then show ?thesis using False by (simp add: a nth_append)
  next
    case n: False
    show ?thesis
    proof (cases "j = c")
      case True
      then show ?thesis using False by (simp add: a nth_append)
    next
      case False
      then have "j - length d < c - length d" using l n by simp
      then show ?thesis using n False by (simp add: a nth_append)
    qed
  qed
qed

lemma entry_nth: "entry xs j = (if j < length xs then xs ! j else None)"
  by (simp add: entry_def arr_get_def)

lemma entry_arr_set: "entry (arr_set None xs (int c) v) j = (if j = c then v else entry xs j)"
proof (cases "j < length (arr_set None xs (int c) v)")
  case True
  then show ?thesis using nth_arr_set[OF True] by (simp add: entry_nth)
next
  case False
  then have "\<not> j < length xs" "j \<noteq> c" by (simp_all add: length_arr_set_nat)
  then show ?thesis using False by (simp add: entry_nth)
qed

lemma entry_Some_less: "entry xs j = Some r \<Longrightarrow> j < length xs"
  by (simp add: entry_nth split: if_splits)

lemma generatePoints_only:
  "generatePoints s =
     s\<lparr> data := data (generatePoints s), points := points (generatePoints s),
        heap := heap (generatePoints s) \<rparr>"
  by (simp add: generatePoints_def Let_def split_beta)

lemma generatePoints_fields [simp]:
  "xData (generatePoints s) = xData s"
  "yData (generatePoints s) = yData s"
  "get_array (generatePoints s) = get_array s"
  "opt_data (generatePoints s) = opt_data s"
  "errors (generatePoints s) = errors s"
  "xIncrement (generatePoints s) = xIncrement s"
  "parallelArrays (generatePoints s) = parallelArrays s"
  "legendType (generatePoints s) = legendType s"
  "isDirty (generatePoints s) = isDirty s"
  by (simp_all add: generatePoints_def Let_def split_beta get_array_def fun_eq_iff)

text \<open>One iteration of the first loop in a series without grouped data.\<close>

lemma gp_step_plain:
  assumes "\<not> hasGroupedData s"
  shows "gp_step s c g i (d, p, h) =
    (case entry d (c + i) of
       None \<Rightarrow>
         if arr_at (opt_data s) (int (c + i)) \<noteq> Undefined
         then (arr_set None d (int (c + i)) (Some (length h)),
               arr_set None p (int i) (Some (length h)),
               h @ [(pointInit (arr_at (opt_data s) (int (c + i))) (arr_at (processedXData s) (int i)))
                      \<lparr>pt_index := Some (c + i)\<rparr>])
         else (d, p, h)
     | Some r \<Rightarrow>
         (d, arr_set None p (int i) (Some r),
          heap_upd (\<lambda>p. p\<lparr>pt_index := Some (c + i)\<rparr>) (Some r) h))"
  using assms by (simp add: gp_step_def entry_def Let_def heap_upd_def split: option.splits)

lemma gp_shape_step:
  assumes "\<not> hasGroupedData s" and "gp_shape s c k (d, p, h)"
  shows "gp_shape s c (Suc k) (gp_step s c g k (d, p, h))"
proof -
  from assms(2) have lp: "length p \<le> k" and lpd: "length p \<le> length d"
    and pe: "\<forall>i<k. entry p i = entry d (c + i)"
    and ex: "\<forall>i<k. (entry d (c + i) \<noteq> None) =
               (entry (data s) (c + i) \<noteq> None \<or> arr_at (opt_data s) (int (c + i)) \<noteq> Undefined)"
    and un: "\<forall>j. c + k \<le> j \<longrightarrow> entry d j = entry (data s) j"
    and fr: "\<forall>j r. entry (data s) j = Some r \<longrightarrow> entry d j = Some r"
    and nw: "\<forall>j. entry d j \<noteq> None \<longrightarrow> entry (data s) j \<noteq> None \<or> (c \<le> j \<and> j < c + k)"
    and ld: "length (data s) \<le> length d"
    and la: "length (data s) < length d \<longrightarrow> entry d (length d - 1) \<noteq> None"
    by (simp_all add: gp_shape_def)
  have pk: "entry p k = None" using lp by (simp add: entry_nth)
  have dk: "entry d (c + k) = entry (data s) (c + k)" using un by simp
  show ?thesis
  proof (cases "entry d (c + k)")
    case None
    show ?thesis
    proof (cases "arr_at (opt_data s) (int (c + k)) \<noteq> Undefined")
      case True
      define r where "r = length h"
      define d' where "d' = arr_set None d (int (c + k)) (Some r)"
      define p' where "p' = arr_set None p (int k) (Some r)"
      define h' where "h' = h @ [(pointInit (arr_at (opt_data s) (int (c + k)))
                 (arr_at (processedXData s) (int k)))\<lparr>pt_index := Some (c + k)\<rparr>]"
      have st: "gp_step s c g k (d, p, h) = (d', p', h')"
        using gp_step_plain[OF assms(1), of c g k d p h] None True
        by (simp add: d'_def p'_def h'_def r_def)
      have ed: "entry d' j = (if j = c + k then Some r else entry d j)" for j
        unfolding d'_def by (rule entry_arr_set)
      have ep: "entry p' j = (if j = k then Some r else entry p j)" for j
        unfolding p'_def by (rule entry_arr_set)
      have ld': "length d' = max (length d) (Suc (c + k))"
        unfolding d'_def by (rule length_arr_set_nat)
      have lp': "length p' = Suc k"
        unfolding p'_def using lp by (simp add: length_arr_set_nat)
      have 1: "length p' \<le> Suc k" "length p' \<le> length d'" using lp' ld' by simp_all
      have 2: "\<forall>i<Suc k. entry p' i = entry d' (c + i)"
        using pe by (simp add: ed ep less_Suc_eq)
      have 3: "\<forall>i<Suc k. (entry d' (c + i) \<noteq> None) =
               (entry (data s) (c + i) \<noteq> None \<or> arr_at (opt_data s) (int (c + i)) \<noteq> Undefined)"
        using ex True by (simp add: ed less_Suc_eq)
      have 4: "\<forall>j. c + Suc k \<le> j \<longrightarrow> entry d' j = entry (data s) j"
        using un by (simp add: ed)
      have 5: "\<forall>j r'. entry (data s) j = Some r' \<longrightarrow> entry d' j = Some r'"
      proof (intro allI impI)
        fix j r' assume a: "entry (data s) j = Some r'"
        then have b: "entry d j = Some r'" using fr by blast
        then have "j \<noteq> c + k" using None by auto
        then show "entry d' j = Some r'" using b by (simp add: ed)
      qed
      have 6: "\<forall>j. entry d' j \<noteq> None \<longrightarrow> entry (data s) j \<noteq> None \<or> (c \<le> j \<and> j < c + Suc k)"
      proof (intro allI impI)
        fix j assume a: "entry d' j \<noteq> None"
        show "entry (data s) j \<noteq> None \<or> (c \<le> j \<and> j < c + Suc k)"
        proof (cases "j = c + k")
          case True
          then show ?thesis by simp
        next
          case False
          then have "entry d j \<noteq> None" using a by (simp add: ed)
          then have "entry (data s) j \<noteq> None \<or> (c \<le> j \<and> j < c + k)" using nw by blast
          then show ?thesis by auto
        qed
      qed
      have 7: "length (data s) \<le> length d'" using ld ld' by simp
      have 8: "length (data s) < length d' \<longrightarrow> entry d' (length d' - 1) \<noteq> None"
      proof (cases "length d \<le> c + k")
        case True
        then have "length d' = Suc (c + k)" using ld' by simp
        then show ?thesis by (simp add: ed)
      next
        case False
        then have e: "length d' = length d" using ld' by simp
        show ?thesis
        proof
          assume "length (data s) < length d'"
          then have "entry d (length d - 1) \<noteq> None" using la e by simp
          then show "entry d' (length d' - 1) \<noteq> None" by (simp add: ed e)
        qed
      qed
      show ?thesis
        unfolding st gp_shape_def prod.case using 1 2 3 4 5 6 7 8 by blast
    next
      case False
      have st: "gp_step s c g k (d, p, h) = (d, p, h)"
        using gp_step_plain[OF assms(1), of c g k d p h] None False by simp
      have 1: "length p \<le> Suc k" using lp by simp
      have 2: "\<forall>i<Suc k. entry p i = entry d (c + i)"
        using pe pk None by (simp add: less_Suc_eq)
      have 3: "\<forall>i<Suc k. (entry d (c + i) \<noteq> None) =
               (entry (data s) (c + i) \<noteq> None \<or> arr_at (opt_data s) (int (c + i)) \<noteq> Undefined)"
        using ex False None dk by (simp add: less_Suc_eq)
      have 4: "\<forall>j. c + Suc k \<le> j \<longrightarrow> entry d j = entry (data s) j"
        using un by simp
      have 6: "\<forall>j. entry d j \<noteq> None \<longrightarrow> entry (data s) j \<noteq> None \<or> (c \<le> j \<and> j < c + Suc k)"
        using nw by auto
      show ?thesis
        unfolding st gp_shape_def prod.case using 1 lpd 2 3 4 fr 6 ld la by blast
    qed
  next
    case (Some r)
    define p' where "p' = arr_set None p (int k) (Some r)"
    define h' where "h' = heap_upd (\<lambda>p. p\<lparr>pt_index := Some (c + k)\<rparr>) (Some r) h"
    have st: "gp_step s c g k (d, p, h) = (d, p', h')"
      using gp_step_plain[OF assms(1), of c g k d p h] Some by (simp add: p'_def h'_def)
    have ep: "entry p' j = (if j = k then Some r else entry p j)" for j
      unfolding p'_def by (rule entry_arr_set)
    have lp': "length p' = Suc k"
      unfolding p'_def using lp by (simp add: length_arr_set_nat)
    have "c + k < length d" using Some by (rule entry_Some_less)
    then have 1: "length p' \<le> Suc k" "length p' \<le> length d" using lp' by simp_all
    have 2: "\<forall>i<Suc k. entry p' i = entry d (c + i)"
      using pe Some by (simp add: ep less_Suc_eq)
    have 3: "\<forall>i<Suc k. (entry d (c + i) \<noteq> None) =
               (entry (data s) (c + i) \<noteq> None \<or> arr_at (opt_data s) (int (c + i)) \<noteq> Undefined)"
      using ex Some dk by (simp add: less_Suc_eq)
    have 4: "\<forall>j. c + Suc k \<le> j \<longrightarrow> entry d j = entry (data s) j"
      using un by simp
    have 6: "\<forall>j. entry d j \<noteq> None \<longrightarrow> entry (data s) j \<noteq> None \<or> (c \<le> j \<and> j < c + Suc k)"
      using nw by auto
    show ?thesis
      unfolding st gp_shape_def prod.case using 1 2 3 4 fr 6 ld la by blast
  qed
qed

lemma gp_shape_fold:
  assumes "\<not> hasGroupedData s"
  shows "gp_shape s c k (fold (gp_step s c g) [0..<k] (data s, [], h0))"
proof (induction k)
  case 0
  show ?case by (simp add: gp_shape_def entry_nth)
next
  case (Suc k)
  obtain d p h where e: "fold (gp_step s c g) [0..<k] (data s, [], h0) = (d, p, h)"
    by (cases "fold (gp_step s c g) [0..<k] (data s, [], h0)") auto
  show ?case
    using gp_shape_step[OF assms Suc[unfolded e], of g] by (simp add: e)
qed







lemma generatePoints_plain:
  assumes "fold (gp_step s (first_cursor s) (if groupAll s then first_cursor s else 0))
             [0..<length (processedXData s)] (data s, [], heap s) = (d, p, h)"
  shows "generatePoints s =
    s\<lparr> data := d, points := Some p,
       heap := (if length (processedXData s) \<noteq> length d \<or> hasGroupedData s
                then release_loop (first_cursor s) (length (processedXData s)) (hasGroupedData s) d 0 h
                else h) \<rparr>"
  using assms unfolding generatePoints_def first_cursor_def Let_def by (simp only: prod.case)

text \<open>The arrays that \<open>generatePoints\<close> leaves, whatever the objects.\<close>

lemma generatePoints_shape:
  assumes "\<not> hasGroupedData s"
  shows "\<exists>p h. points (generatePoints s) = Some p \<and>
    gp_shape s (first_cursor s) (length (processedXData s)) (data (generatePoints s), p, h)"
proof -
  define c where "c = first_cursor s"
  define n where "n = length (processedXData s)"
  define g where "g = (if groupAll s then c else 0)"
  obtain d p h where f: "fold (gp_step s c g) [0..<n] (data s, [], heap s) = (d, p, h)"
    by (cases "fold (gp_step s c g) [0..<n] (data s, [], heap s)") auto
  have gp: "data (generatePoints s) = d" "points (generatePoints s) = Some p"
    using generatePoints_plain[OF f[unfolded g_def c_def n_def]] by simp_all
  have "gp_shape s c n (d, p, h)"
    using gp_shape_fold[OF assms, of c n g "heap s"] by (simp add: f)
  then show ?thesis unfolding gp c_def n_def by blast
qed


lemma upt_3: "[0..<3] = [0, 1, 2]"
  by (simp add: upt_rec)




subsection \<open>addPoint followed by removePoint\<close>

lemma splice_remove_at:
  "splice (p @ v # r) (int (length p)) 1 [] = p @ r"
proof -
  have n: "nat (int (length p) + 1) = Suc (length p)" by simp
  show ?thesis
    by (simp add: splice_def Let_def min_def n del: of_nat_add of_nat_Suc)
qed

lemma splice_insert_at:
  "i \<le> length a \<Longrightarrow> splice a (int i) 0 [z] = take i a @ z # drop i a"
  by (simp add: splice_def Let_def min_def)

lemma splice_insert_remove:
  assumes "i \<le> length a"
  shows "splice (arr_set h (splice a (int i) 0 [z]) (int i) v) (int i) 1 [] = a"
proof -
  have s: "splice a (int i) 0 [z] = take i a @ z # drop i a"
    using assms by (simp add: splice_def Let_def min_def)
  have w: "arr_set h (take i a @ z # drop i a) (int i) v = take i a @ v # drop i a"
    using assms by (simp add: arr_set_def list_update_append)
  have l: "length (take i a) = i" using assms by simp
  have "splice (take i a @ v # drop i a) (int (length (take i a))) 1 [] = take i a @ drop i a"
    by (rule splice_remove_at)
  then show ?thesis unfolding l by (simp add: s w)
qed

lemma splice_null_remove:
  assumes "i \<le> length a"
  shows "splice (splice a (int i) 0 [z]) (int i) 1 [] = a"
proof -
  have s: "splice a (int i) 0 [z] = take i a @ z # drop i a"
    using assms by (simp add: splice_def Let_def min_def)
  have l: "length (take i a) = i" using assms by simp
  have "splice (take i a @ z # drop i a) (int (length (take i a))) 1 [] = take i a @ drop i a"
    by (rule splice_remove_at)
  then show ?thesis unfolding l by (simp add: s)
qed

lemma splice_beyond:
  assumes "length a \<le> i"
  shows "splice a (int i) 1 [] = a"
  using assms by (simp add: splice_def Let_def min_def)

lemma insertion_index_le: "insertion_index xs x n \<le> n"
  by (induction n) auto

lemma insertion_point_le: "snd (insertion_point point s) \<le> length (xData s)"
  by (simp add: insertion_point_def Let_def insertion_index_le)

lemma autoIncrement_only:
  "\<exists>p x. snd (autoIncrement s) = s\<lparr> pointInterval := p, xIncrement := x \<rparr>"
  by (simp add: autoIncrement_def Let_def) blast

lemma applyOptions_only:
  "snd (applyOptions options s) = s \<or>
   (\<exists>p x. snd (applyOptions options s) = s\<lparr> pointInterval := p, xIncrement := x \<rparr>)"
proof (cases "obj_get (optionsToObject options) ''x'' = Undefined")
  case True
  obtain p x where "snd (autoIncrement s) = s\<lparr> pointInterval := p, xIncrement := x \<rparr>"
    using autoIncrement_only by blast
  then show ?thesis using True by (auto simp: applyOptions_def Let_def split_beta)
next
  case False
  then show ?thesis by (simp add: applyOptions_def Let_def)
qed

lemma applyOptions_fields [simp]:
  "get_array (snd (applyOptions options s)) = get_array s"
  "xData (snd (applyOptions options s)) = xData s"
  "data (snd (applyOptions options s)) = data s"
  "opt_data (snd (applyOptions options s)) = opt_data s"
  "parallelArrays (snd (applyOptions options s)) = parallelArrays s"
  "toYData (snd (applyOptions options s)) = toYData s"
  "legendType (snd (applyOptions options s)) = legendType s"
  using applyOptions_only[of options s] by auto

lemma processData_only:
  "processData force s = s \<or>
   (\<exists>a b u c d e f g. processData force s =
      s\<lparr> cropped := a, cropStart := b, processed_unsliced := u, processedXData_slice := c,
         processedYData_slice := d, closestPointRange := e, basePointRange := f, errors := g \<rparr>)"
proof (cases "isCartesian s \<and> \<not> isDirty s \<and>
        \<not> (case xAxis s of None \<Rightarrow> False | Some a \<Rightarrow> ax_isDirty a) \<and>
        \<not> yAxis_isDirty s \<and> \<not> force")
  case True
  have "processData force s = s" unfolding processData_def by (rule if_P) (rule True)
  then show ?thesis by simp
next
  case False
  have "processData force s =
      (case getProcessedData s False of
             (processedData, errs) \<Rightarrow>
               s\<lparr> cropped := pd_cropped processedData,
                  cropStart := Some (pd_cropStart processedData),
                  processed_unsliced := hands_on_arrays s False,
                  processedXData_slice := pd_xData processedData,
                  processedYData_slice := pd_yData processedData,
                  closestPointRange := pd_closestPointRange processedData,
                  basePointRange := pd_closestPointRange processedData,
                  errors := errors s @ errs \<rparr>)"
    unfolding processData_def by (rule if_not_P) (rule False)
  then have "processData force s =
      s\<lparr> cropped := pd_cropped (fst (getProcessedData s False)),
         cropStart := Some (pd_cropStart (fst (getProcessedData s False))),
         processed_unsliced := hands_on_arrays s False,
         processedXData_slice := pd_xData (fst (getProcessedData s False)),
         processedYData_slice := pd_yData (fst (getProcessedData s False)),
         closestPointRange := pd_closestPointRange (fst (getProcessedData s False)),
         basePointRange := pd_closestPointRange (fst (getProcessedData s False)),
         errors := errors s @ snd (getProcessedData s False) \<rparr>"
    by (simp add: split_beta)
  then show ?thesis by blast
qed

lemma get_array_processed_fields [simp]:
  "get_array (s\<lparr> cropped := a, cropStart := b, processed_unsliced := u,
         processedXData_slice := c, processedYData_slice := d,
         closestPointRange := e, basePointRange := f, errors := g \<rparr>) = get_array s"
  by (simp add: get_array_def fun_eq_iff)

lemma processData_fields [simp]:
  "get_array (processData force s) = get_array s"
  "xData (processData force s) = xData s"
  "yData (processData force s) = yData s"
  "data (processData force s) = data s"
  "opt_data (processData force s) = opt_data s"
  "parallelArrays (processData force s) = parallelArrays s"
  "toYData (processData force s) = toYData s"
  "legendType (processData force s) = legendType s"
  "points (processData force s) = points s"
  "heap (processData force s) = heap s"
  "xIncrement (processData force s) = xIncrement s"
  "hasGroupedData (processData force s) = hasGroupedData s"
  using processData_only[of force s] by auto

text \<open>The redraw at the end of a call.\<close>

lemma redraw_chart_arrays:
  assumes "keeps_arrays chartRedraw"
  shows "get_array (redraw_chart redraw chartRedraw s) = get_array s"
    and "parallelArrays (redraw_chart redraw chartRedraw s) = parallelArrays s"
  using assms by (simp_all add: redraw_chart_def keeps_arrays_def)

lemma addPoint_redraw:
  "addPoint chartRedraw options redraw shift s =
     redraw_chart redraw chartRedraw (addPoint chartRedraw options False shift s)"
  by (simp add: addPoint_def redraw_chart_def split_beta Let_def)

text \<open>The series after \<open>addPoint options\<close> without shift and redraw, field by field.\<close>

lemma addPoint_no_shift:
  assumes "distinct (parallelArrays s)"
  shows "parallelArrays (addPoint chartRedraw options False False s) = parallelArrays s"
    and "get_array (addPoint chartRedraw options False False s) k =
      (if k \<in> set (parallelArrays s)
       then pa_result (fst (applyOptions options s)) (AtIndex (int (added_index options s)))
              (updateParallelArrays (fst (applyOptions options s))
                 (Call (Splice (int (added_index options s)) 0 [Num 0]))
                 (snd (applyOptions options s))) k
       else get_array s k)"
  using assms
  by (simp_all add: addPoint_def redraw_chart_def added_index_def split_beta Let_def
      updateParallelArrays_get_array)

lemma addPoint_data:
  assumes "legendType s \<noteq> Some ''point''"
  shows "data (addPoint chartRedraw options False False s) =
      (if added_in_the_middle options s
       then splice (data s) (int (added_index options s)) 0 [None] else data s)"
  using assms
  by (simp add: addPoint_def redraw_chart_def added_index_def added_in_the_middle_def split_beta
      Let_def)

lemma added_index_le: "added_index options s \<le> length (xData s)"
  using insertion_point_le[of "fst (applyOptions options s)" "snd (applyOptions options s)"]
  by (simp add: added_index_def split_beta)

lemma addPoint_arrays_added:
  assumes "distinct (parallelArrays s)" and "k \<in> set (parallelArrays s)"
  shows "get_array (addPoint chartRedraw options False False s) k =
      arr_set Undefined (splice (get_array s k) (int (added_index options s)) 0 [Num 0])
        (int (added_index options s))
        (case toYData s of
           Some f \<Rightarrow> if k = ''y'' then f (fst (applyOptions options s))
                     else obj_get (fst (applyOptions options s)) k
         | None \<Rightarrow> obj_get (fst (applyOptions options s)) k)"
  using assms
  by (simp add: addPoint_no_shift(2) pa_result_AtIndex updateParallelArrays_get_array
      pa_result_Call)

lemma addPoint_removePoint_arrays:
  assumes "distinct (parallelArrays s)"
    and "\<forall>k\<in>set (parallelArrays s). length (get_array s k) = length (xData s)"
    and "keeps_arrays chartRedraw"
  shows "get_array (redraw_chart redraw' chartRedraw
           (removePoint (int (added_index options s))
              (addPoint chartRedraw options redraw False s))) k = get_array s k"
proof -
  let ?a = "addPoint chartRedraw options False False s"
  let ?b = "redraw_chart redraw chartRedraw ?a"
  have pb: "parallelArrays ?b = parallelArrays s" and gb: "get_array ?b = get_array ?a"
    using assms(1,3) by (simp_all add: redraw_chart_arrays addPoint_no_shift(1))
  have d: "distinct (parallelArrays ?b)" using assms(1) pb by simp
  have r: "get_array (removePoint (int (added_index options s)) ?b) k = get_array s k"
  proof (cases "k \<in> set (parallelArrays s)")
    case True
    then have l: "added_index options s \<le> length (get_array s k)"
      using assms(2) added_index_le[of options s] by simp
    show ?thesis
      using True l
      by (simp add: removePoint_arrays[OF d] pb gb addPoint_arrays_added[OF assms(1) True]
          splice_insert_remove)
  next
    case False
    then show ?thesis
      using assms(1) by (simp add: removePoint_arrays[OF d] pb gb addPoint_no_shift(2))
  qed
  show ?thesis
    unfolding addPoint_redraw[of chartRedraw options redraw]
    using r assms(3) by (simp add: redraw_chart_arrays)
qed

text \<open>The length of \<open>series.data\<close> through the materialisation of a legend by point.\<close>

lemma length_splice_insert: "length (splice xs (int i) 0 [z]) = Suc (length xs)"
  by (simp add: splice_def Let_def min_def)

lemma length_splice_remove:
  "length (splice xs (int i) 1 []) = (if i < length xs then length xs - 1 else length xs)"
  by (auto simp: splice_def Let_def min_def)

lemma hands_on_crop_step:
  "hands_on_arrays s f \<Longrightarrow> crop_step s f = (xData s, yData s, 0, None)"
  by (simp add: hands_on_arrays_def crop_step_def Let_def split: if_splits)

lemma crop_step_range:
  "fst (snd (snd (crop_step s f))) + length (fst (crop_step s f)) \<le> length (xData s)"
proof -
  have g: "a + length (slice xs a e) \<le> length xs" if "a \<le> length xs"
    for a e and xs :: "jsval list"
    using that by (simp add: slice_def)
  have a: "nat (max 0 (int i - int k)) + length (slice xs (nat (max 0 (int i - int k))) e) \<le> length xs"
    if "i < length xs" for i k e and xs :: "jsval list"
  proof -
    have "nat (max 0 (int i - int k)) \<le> length xs" using that by simp
    then show ?thesis by (rule g)
  qed
  have b: "0 + length (slice xs 0 e) \<le> length xs" for e and xs :: "jsval list"
    by (simp add: slice_def)
  show ?thesis
    using a b by (simp add: crop_step_def cropData_def Let_def)
qed

lemma processData_range:
  assumes "first_cursor s + length (processedXData s) \<le> length (xData s)"
  shows "first_cursor (processData f s) + length (processedXData (processData f s)) \<le> length (xData s)"
proof (cases "processData f s = s")
  case True
  then show ?thesis using assms by simp
next
  case False
  then have p: "processData f s =
      (case getProcessedData s False of
             (processedData, errs) \<Rightarrow>
               s\<lparr> cropped := pd_cropped processedData,
                  cropStart := Some (pd_cropStart processedData),
                  processed_unsliced := hands_on_arrays s False,
                  processedXData_slice := pd_xData processedData,
                  processedYData_slice := pd_yData processedData,
                  closestPointRange := pd_closestPointRange processedData,
                  basePointRange := pd_closestPointRange processedData,
                  errors := errors s @ errs \<rparr>)"
    by (simp add: processData_def split: if_splits)
  have c: "first_cursor (processData f s) = fst (snd (snd (crop_step s False)))"
    unfolding p by (simp add: first_cursor_def split_beta getProcessedData_crop)
  have x: "processedXData (processData f s) = fst (crop_step s False)"
    unfolding p using hands_on_crop_step[of s False]
    by (simp add: processedXData_def split_beta getProcessedData_crop)
  show ?thesis unfolding c x by (rule crop_step_range)
qed

lemma generatePoints_length:
  assumes "\<not> hasGroupedData t"
  shows "length (data t) \<le> length (data (generatePoints t))"
    and "length (data (generatePoints t)) \<le>
           max (length (data t)) (first_cursor t + length (processedXData t))"
proof -
  obtain p h where sh:
    "gp_shape t (first_cursor t) (length (processedXData t)) (data (generatePoints t), p, h)"
    using generatePoints_shape[OF assms] by blast
  let ?d = "data (generatePoints t)"
  from sh have ld: "length (data t) \<le> length ?d"
    and la: "length (data t) < length ?d \<longrightarrow> entry ?d (length ?d - 1) \<noteq> None"
    and nw: "\<forall>j. entry ?d j \<noteq> None \<longrightarrow>
               entry (data t) j \<noteq> None \<or>
               (first_cursor t \<le> j \<and> j < first_cursor t + length (processedXData t))"
    by (simp_all add: gp_shape_def)
  show "length (data t) \<le> length ?d" by (rule ld)
  show "length ?d \<le> max (length (data t)) (first_cursor t + length (processedXData t))"
  proof (cases "length (data t) < length ?d")
    case True
    then have e: "entry ?d (length ?d - 1) \<noteq> None" using la by blast
    have "\<not> length ?d - 1 < length (data t)" using True by simp
    then have "entry (data t) (length ?d - 1) = None" by (simp only: entry_nth if_False)
    then have "length ?d - 1 < first_cursor t + length (processedXData t)"
      using nw e by blast
    then show ?thesis by simp
  next
    case False
    then show ?thesis by simp
  qed
qed

text \<open>\<open>addPoint\<close> without shift and redraw, in its steps.\<close>

lemma addPoint_steps:
  "addPoint chartRedraw options False False s =
    (let s4 = inserted options s;
         s5 = (if added_in_the_middle options s
               then processData False
                      (s4\<lparr> data := splice (data s4) (int (added_index options s)) 0 [None] \<rparr>)
               else s4);
         s6 = (if legendType s5 = Some ''point'' then generatePoints s5 else s5)
     in s6\<lparr> isDirty := True, isDirtyData := True \<rparr>)"
  by (simp add: addPoint_def inserted_def added_index_def added_in_the_middle_def redraw_chart_def
      split_beta Let_def)

lemma inserted_only:
  "\<exists>p x xs ys os od. inserted options s =
     s\<lparr> pointInterval := p, xIncrement := x, xData := xs, yData := ys, otherData := os,
        opt_data := od \<rparr>"
proof -
  obtain point s1 where a: "applyOptions options s = (point, s1)"
    by (cases "applyOptions options s") auto
  have "s1 = s \<or> (\<exists>p x. s1 = s\<lparr> pointInterval := p, xIncrement := x \<rparr>)"
    using applyOptions_only[of options s] a by simp
  moreover have "s = s\<lparr> pointInterval := pointInterval s, xIncrement := xIncrement s \<rparr>"
    by simp
  ultimately have "\<exists>p x. s1 = s\<lparr> pointInterval := p, xIncrement := x \<rparr>"
    by (elim disjE) (simp only:, (rule exI)+, assumption+)
  then obtain p x where s1: "s1 = s\<lparr> pointInterval := p, xIncrement := x \<rparr>"
    by blast
  define i where "i = snd (insertion_point point s1)"
  obtain xs ys os where s2:
    "updateParallelArrays point (Call (Splice (int i) 0 [Num 0])) s1 =
       s1\<lparr> xData := xs, yData := ys, otherData := os \<rparr>"
    using updateParallelArrays_only by blast
  obtain xs' ys' os' where s3:
    "updateParallelArrays point (AtIndex (int i))
       (s1\<lparr> xData := xs, yData := ys, otherData := os \<rparr>) =
       (s1\<lparr> xData := xs, yData := ys, otherData := os \<rparr>)\<lparr> xData := xs', yData := ys', otherData := os' \<rparr>"
    using updateParallelArrays_only by blast
  have "inserted options s =
     s\<lparr> pointInterval := p, xIncrement := x, xData := xs', yData := ys', otherData := os',
        opt_data := splice (opt_data s) (int i) 0 [options] \<rparr>"
    unfolding inserted_def a prod.case Let_def i_def[symmetric] s2 s3
    by (simp add: s1)
  then show ?thesis by blast
qed

lemma inserted_fields:
  "hasGroupedData (inserted options s) = hasGroupedData s"
  "data (inserted options s) = data s"
  "legendType (inserted options s) = legendType s"
  "cropStart (inserted options s) = cropStart s"
  "processed_unsliced (inserted options s) = processed_unsliced s"
  "processedXData_slice (inserted options s) = processedXData_slice s"
  using inserted_only[of options s] by auto

lemma inserted_arrays:
  assumes "distinct (parallelArrays s)" and "k \<in> set (parallelArrays s)"
  shows "get_array (inserted options s) k =
      arr_set Undefined (splice (get_array s k) (int (added_index options s)) 0 [Num 0])
        (int (added_index options s))
        (case toYData s of
           Some f \<Rightarrow> if k = ''y'' then f (fst (applyOptions options s))
                     else obj_get (fst (applyOptions options s)) k
         | None \<Rightarrow> obj_get (fst (applyOptions options s)) k)"
  using assms
  by (simp add: inserted_def added_index_def split_beta Let_def updateParallelArrays_get_array
      pa_result_AtIndex pa_result_Call)

lemma added_index_append:
  "\<not> added_in_the_middle options s \<Longrightarrow> added_index options s = length (xData s)"
  by (auto simp: added_index_def added_in_the_middle_def insertion_point_def split_beta Let_def)

lemma addPoint_data_length_point:
  assumes "legendType s = Some ''point''" and "\<not> hasGroupedData s"
    and "distinct (parallelArrays s)" and "''x'' \<in> set (parallelArrays s)"
    and "length (data s) = length (xData s)"
    and "first_cursor s + length (processedXData s) \<le> length (xData s)"
  shows "length (data (removePoint (int (added_index options s))
                         (addPoint chartRedraw options False False s))) = length (data s)"
proof -
  define n where "n = length (xData s)"
  define i where "i = added_index options s"
  define s4 where "s4 = inserted options s"
  have il: "i \<le> n" unfolding i_def n_def by (rule added_index_le)
  have f4: "hasGroupedData s4 = hasGroupedData s" "data s4 = data s"
    "legendType s4 = legendType s" "cropStart s4 = cropStart s"
    "processed_unsliced s4 = processed_unsliced s"
    "processedXData_slice s4 = processedXData_slice s"
    unfolding s4_def by (rule inserted_fields)+
  have "xData s4 = get_array s4 ''x''" by (simp add: get_array_def)
  also have "\<dots> = arr_set Undefined (splice (get_array s ''x'') (int i) 0 [Num 0]) (int i)
        (case toYData s of
           Some f \<Rightarrow> if ''x'' = ''y'' then f (fst (applyOptions options s))
                     else obj_get (fst (applyOptions options s)) ''x''
         | None \<Rightarrow> obj_get (fst (applyOptions options s)) ''x'')"
    unfolding s4_def i_def by (rule inserted_arrays[OF assms(3,4)])
  finally have "length (xData s4) = max (Suc (length (get_array s ''x''))) (Suc i)"
    by (simp only: length_arr_set_nat length_splice_insert)
  moreover have "get_array s ''x'' = xData s" by (simp add: get_array_def)
  ultimately have x4: "length (xData s4) = Suc n" using il by (simp add: n_def)
  have c4: "first_cursor s4 = first_cursor s" by (simp add: first_cursor_def f4)
  have r4: "first_cursor s4 + length (processedXData s4) \<le> Suc n"
  proof (cases "processed_unsliced s")
    case True
    then have "first_cursor s = 0" using assms(6) by (simp add: processedXData_def)
    then show ?thesis using True by (simp add: c4 processedXData_def f4 x4)
  next
    case False
    then show ?thesis using assms(6) by (simp add: c4 processedXData_def f4 n_def)
  qed
  define s5 where "s5 = (if added_in_the_middle options s
               then processData False (s4\<lparr> data := splice (data s4) (int i) 0 [None] \<rparr>)
               else s4)"
  have a: "addPoint chartRedraw options False False s =
      (if legendType s5 = Some ''point'' then generatePoints s5 else s5)
        \<lparr> isDirty := True, isDirtyData := True \<rparr>"
    unfolding addPoint_steps Let_def s5_def s4_def i_def by simp
  have l5: "legendType s5 = Some ''point''" and g5: "\<not> hasGroupedData s5"
    using assms(1,2) by (simp_all add: s5_def f4)
  have d: "data (addPoint chartRedraw options False False s) = data (generatePoints s5)"
    unfolding a using l5 by simp
  have r5: "first_cursor s5 + length (processedXData s5) \<le> Suc n"
  proof (cases "added_in_the_middle options s")
    case True
    let ?u = "s4\<lparr> data := splice (data s4) (int i) 0 [None] \<rparr>"
    have u: "first_cursor ?u = first_cursor s4" "processedXData ?u = processedXData s4"
      "length (xData ?u) = Suc n"
      by (simp_all add: first_cursor_def processedXData_def x4)
    have "first_cursor ?u + length (processedXData ?u) \<le> length (xData ?u)"
      unfolding u by (rule r4)
    then have "first_cursor (processData False ?u) + length (processedXData (processData False ?u))
        \<le> length (xData ?u)"
      by (rule processData_range)
    then show ?thesis using True by (simp add: s5_def x4)
  next
    case False
    then show ?thesis using r4 by (simp add: s5_def)
  qed
  have lo: "length (data s5) \<le> length (data (generatePoints s5))"
    and hi: "length (data (generatePoints s5)) \<le>
           max (length (data s5)) (first_cursor s5 + length (processedXData s5))"
    using generatePoints_length[OF g5] by blast+
  have rm: "length (data (removePoint (int i) (addPoint chartRedraw options False False s))) =
      (if i < length (data (generatePoints s5)) then length (data (generatePoints s5)) - 1
       else length (data (generatePoints s5)))"
    by (simp add: removePoint_fields d length_splice_remove)
  show ?thesis
  proof (cases "added_in_the_middle options s")
    case True
    then have "length (data s5) = Suc n"
      using assms(5) by (simp add: s5_def f4 length_splice_insert n_def)
    then have "length (data (generatePoints s5)) = Suc n" using lo hi r5 by simp
    then show ?thesis
      unfolding i_def[symmetric] rm using il assms(5) by (simp add: n_def)
  next
    case False
    then have "length (data s5) = n" using assms(5) by (simp add: s5_def f4 n_def)
    then have "n \<le> length (data (generatePoints s5))" "length (data (generatePoints s5)) \<le> Suc n"
      using lo hi r5 by simp_all
    moreover have "i = n" unfolding i_def n_def using False by (rule added_index_append)
    ultimately show ?thesis
      unfolding i_def[symmetric] rm using assms(5) by (auto simp: n_def)
  qed
qed

text \<open>
  C8 (as amended). In a series in which every declared parallel array is as long as
  \<open>xData\<close>, \<open>addPoint\<close> without shift followed by \<open>removePoint\<close> at the index of the added
  point restores \<open>xData\<close>, \<open>yData\<close> and every other array, whether or not the calls
  redraw, for a redraw of the chart that leaves the parallel arrays to the series.
  Without redraws, in a series whose legend is not by point, the pair restores
  \<open>series.data\<close>, and so its length, where the point was appended at or beyond the end of
  \<open>series.data\<close>, or inserted in the middle at an index that \<open>series.data\<close> reaches; and
  in a series with a legend by point, whose \<open>addPoint\<close> materialises the points, it
  restores the length of \<open>series.data\<close> where that was the length of \<open>xData\<close> and the
  processed range lay within the raw data.
\<close>

theorem addPoint_removePoint_roundtrip:
  assumes "distinct (parallelArrays s)"
    and "\<forall>k\<in>set (parallelArrays s). length (get_array s k) = length (xData s)"
    and "keeps_arrays chartRedraw"
  shows "xData (redraw_chart redraw' chartRedraw
           (removePoint (int (added_index options s))
              (addPoint chartRedraw options redraw False s))) = xData s \<and>
         yData (redraw_chart redraw' chartRedraw
           (removePoint (int (added_index options s))
              (addPoint chartRedraw options redraw False s))) = yData s \<and>
         (\<forall>k. get_array (redraw_chart redraw' chartRedraw
           (removePoint (int (added_index options s))
              (addPoint chartRedraw options redraw False s))) k = get_array s k) \<and>
         (legendType s \<noteq> Some ''point'' \<and>
          (if added_in_the_middle options s then added_index options s \<le> length (data s)
           else length (data s) \<le> added_index options s) \<longrightarrow>
            data (removePoint (int (added_index options s))
                    (addPoint chartRedraw options False False s)) = data s \<and>
            length (data (removePoint (int (added_index options s))
                    (addPoint chartRedraw options False False s))) = length (data s)) \<and>
         (legendType s = Some ''point'' \<and> \<not> hasGroupedData s \<and> ''x'' \<in> set (parallelArrays s) \<and>
          length (data s) = length (xData s) \<and>
          first_cursor s + length (processedXData s) \<le> length (xData s) \<longrightarrow>
            length (data (removePoint (int (added_index options s))
                    (addPoint chartRedraw options False False s))) = length (data s))"
proof -
  have x: "xData t = get_array t ''x''" and y: "yData t = get_array t ''y''" for t
    by (simp_all add: get_array_def)
  have d: "data (removePoint (int (added_index options s))
              (addPoint chartRedraw options False False s)) = data s"
    if "legendType s \<noteq> Some ''point''"
      and "if added_in_the_middle options s then added_index options s \<le> length (data s)
        else length (data s) \<le> added_index options s"
  proof (cases "added_in_the_middle options s")
    case True
    with that show ?thesis
      by (simp add: removePoint_fields addPoint_data splice_null_remove)
  next
    case False
    with that show ?thesis
      by (simp add: removePoint_fields addPoint_data splice_beyond)
  qed
  have p: "length (data (removePoint (int (added_index options s))
                    (addPoint chartRedraw options False False s))) = length (data s)"
    if "legendType s = Some ''point''" "\<not> hasGroupedData s" "''x'' \<in> set (parallelArrays s)"
      "length (data s) = length (xData s)"
      "first_cursor s + length (processedXData s) \<le> length (xData s)"
    using that(1,2) assms(1) that(3,4,5) by (rule addPoint_data_length_point)
  let ?r = "redraw_chart redraw' chartRedraw
           (removePoint (int (added_index options s))
              (addPoint chartRedraw options redraw False s))"
  have g: "\<forall>k. get_array ?r k = get_array s k"
    using addPoint_removePoint_arrays[OF assms] by blast
  have xy: "xData ?r = xData s" "yData ?r = yData s"
    using g by (simp_all add: x y)
  have c4: "legendType s \<noteq> Some ''point'' \<and>
          (if added_in_the_middle options s then added_index options s \<le> length (data s)
           else length (data s) \<le> added_index options s) \<longrightarrow>
            data (removePoint (int (added_index options s))
                    (addPoint chartRedraw options False False s)) = data s \<and>
            length (data (removePoint (int (added_index options s))
                    (addPoint chartRedraw options False False s))) = length (data s)"
    using d by simp
  have c5: "legendType s = Some ''point'' \<and> \<not> hasGroupedData s \<and> ''x'' \<in> set (parallelArrays s) \<and>
          length (data s) = length (xData s) \<and>
          first_cursor s + length (processedXData s) \<le> length (xData s) \<longrightarrow>
            length (data (removePoint (int (added_index options s))
                    (addPoint chartRedraw options False False s))) = length (data s)"
    using p by blast
  show ?thesis
    by (rule conjI[OF xy(1) conjI[OF xy(2) conjI[OF g conjI[OF c4 c5]]]])
qed

lemma plain_redraw_keeps_arrays: "keeps_arrays plain_redraw"
  by (simp add: keeps_arrays_def plain_redraw_def)

lemma cropped_series_facts:
  "legendType cropped_series \<noteq> Some ''point''"
  "distinct (parallelArrays cropped_series)"
  "\<forall>k\<in>set (parallelArrays cropped_series).
      length (get_array cropped_series k) = length (xData cropped_series)"
  "xData cropped_series = map Num [0, 1, 2, 3, 4]"
  "yData cropped_series = map Num [5, 6, 7, 8, 9]"
  "data cropped_series = [None, Some 0, Some 1, Some 2]"
  by (simp_all add: cropped_series_def default_series_def get_array_def)

lemma cropped_series_added:
  "added_index (Arr [Num (5 / 2), Num 1]) cropped_series = 3"
  "added_in_the_middle (Arr [Num (5 / 2), Num 1]) cropped_series"
  by (simp_all add: added_index_def added_in_the_middle_def applyOptions_def insertion_point_def
      obj_get_def arr_at_def arr_get_def cropped_series_def default_series_def Let_def
      eval_nat_numeral)

lemma full_pie_facts:
  "legendType full_pie = Some ''point''" "\<not> hasGroupedData full_pie"
  "distinct (parallelArrays full_pie)" "''x'' \<in> set (parallelArrays full_pie)"
  "\<forall>k\<in>set (parallelArrays full_pie). length (get_array full_pie k) = length (xData full_pie)"
  "length (data full_pie) = length (xData full_pie)"
  "first_cursor full_pie + length (processedXData full_pie) \<le> length (xData full_pie)"
  "length (data full_pie) = 2" "length (xData full_pie) = 2"
  "first_cursor full_pie + length (processedXData full_pie) \<le> 2"
  by (simp_all add: full_pie_def pie_series_def turbo_series_def default_series_def get_array_def
      first_cursor_def processedXData_def)

lemma full_pie_added: "added_index (Num 7) full_pie = 2"
  by (simp add: added_index_def applyOptions_def insertion_point_def autoIncrement_def
      obj_get_def full_pie_def pie_series_def turbo_series_def default_series_def Let_def
      split_beta)

theorem addPoint_removePoint_roundtrip_witness:
  "keeps_arrays plain_redraw \<and>
   added_in_the_middle (Arr [Num (5 / 2), Num 1]) cropped_series \<and>
   added_index (Arr [Num (5 / 2), Num 1]) cropped_series = 3 \<and>
   xData (redraw_chart True plain_redraw
            (removePoint 3 (addPoint plain_redraw (Arr [Num (5 / 2), Num 1]) True False cropped_series)))
     = map Num [0, 1, 2, 3, 4] \<and>
   yData (redraw_chart True plain_redraw
            (removePoint 3 (addPoint plain_redraw (Arr [Num (5 / 2), Num 1]) True False cropped_series)))
     = map Num [5, 6, 7, 8, 9] \<and>
   data (removePoint 3 (addPoint plain_redraw (Arr [Num (5 / 2), Num 1]) False False cropped_series))
     = [None, Some 0, Some 1, Some 2] \<and>
   added_index (Num 7) full_pie = 2 \<and>
   length (data (removePoint 2 (addPoint plain_redraw (Num 7) False False full_pie))) = 2"
  using addPoint_removePoint_roundtrip[OF cropped_series_facts(2,3) plain_redraw_keeps_arrays,
      of True "Arr [Num (5 / 2), Num 1]" True]
    addPoint_removePoint_roundtrip[OF full_pie_facts(3,5) plain_redraw_keeps_arrays,
      of False "Num 7" False]
  by (simp add: cropped_series_added cropped_series_facts(1,4-6) full_pie_added
      full_pie_facts(1,2,4,6,7,8,9,10) plain_redraw_keeps_arrays)

text \<open>
  The claim as stated fails for \<open>data.length\<close>: in a series none of whose points is
  materialised yet (\<open>series.data\<close> is empty), a point added in the middle leaves a
  \<open>null\<close> at the end of \<open>series.data\<close>, and \<open>removePoint\<close> at the point's index 2 does
  not reach it.
\<close>

theorem addPoint_removePoint_data_length:
  "added_index (Arr [Num (5 / 2), Num 1]) fresh_series = 2 \<and>
   length (data fresh_series) = 0 \<and>
   length (data (removePoint 2
      (addPoint plain_redraw (Arr [Num (5 / 2), Num 1]) False False fresh_series))) = 1"
proof -
  have l: "legendType fresh_series \<noteq> Some ''point''" "data fresh_series = []"
    by (simp_all add: fresh_series_def default_series_def)
  have a: "added_index (Arr [Num (5 / 2), Num 1]) fresh_series = 2"
    "added_in_the_middle (Arr [Num (5 / 2), Num 1]) fresh_series"
    by (simp_all add: added_index_def added_in_the_middle_def applyOptions_def insertion_point_def
        obj_get_def arr_at_def arr_get_def fresh_series_def default_series_def Let_def
        eval_nat_numeral)
  show ?thesis
    using l(1)
    by (simp add: a l(2) removePoint_fields addPoint_data splice_def)
qed

subsection \<open>setData: the reset of the parallel arrays\<close>

lemma fold_reset_only:
  "\<exists>xs ys os. fold (\<lambda>key. set_array key []) ks s = s\<lparr> xData := xs, yData := ys, otherData := os \<rparr>"
proof (induction ks arbitrary: s)
  case Nil
  have "s = s\<lparr> xData := xData s, yData := yData s, otherData := otherData s \<rparr>" by simp
  then show ?case by (metis fold_simps(1))
next
  case (Cons a ks)
  obtain xs ys os where
    "fold (\<lambda>key. set_array key []) ks (set_array a [] s)
       = (set_array a [] s)\<lparr> xData := xs, yData := ys, otherData := os \<rparr>"
    using Cons.IH by blast
  then have "fold (\<lambda>key. set_array key []) (a # ks) s = s\<lparr> xData := xs, yData := ys, otherData := os \<rparr>"
    by (subst (asm) (2) set_array_only) simp
  then show ?case by blast
qed

lemma fold_reset_get_array:
  "get_array (fold (\<lambda>key. set_array key []) ks s) k = (if k \<in> set ks then [] else get_array s k)"
  by (induction ks arbitrary: s) auto

lemma reset_arrays_get_array:
  "get_array (reset_arrays s) k = (if k \<in> set (parallelArrays s) then [] else get_array s k)"
  by (simp add: reset_arrays_def fold_reset_get_array)

lemma reset_arrays_fields [simp]:
  "parallelArrays (reset_arrays s) = parallelArrays s"
  "turboThreshold (reset_arrays s) = turboThreshold s"
  "errors (reset_arrays s) = errors s"
  "heap (reset_arrays s) = heap s"
  "points (reset_arrays s) = points s"
  "legendType (reset_arrays s) = legendType s"
  "toYData (reset_arrays s) = toYData s"
  "hasGroupedData (reset_arrays s) = hasGroupedData s"
  "xIncrement (reset_arrays s) = xIncrement s"
  using fold_reset_only[of "parallelArrays s" s] by (auto simp: reset_arrays_def)

lemma get_array_more_fields [simp]:
  "get_array (s\<lparr>colorCounter := a\<rparr>) = get_array s"
  "get_array (s\<lparr>errors := b\<rparr>) = get_array s"
  "get_array (s\<lparr>xAxis := c\<rparr>) = get_array s"
  "get_array (s\<lparr>chart_isDirtyBox := d\<rparr>) = get_array s"
  by (simp_all add: get_array_def fun_eq_iff)

lemma xy_as_arrays: "xData t = get_array t ''x''" "yData t = get_array t ''y''"
  by (simp_all add: get_array_def)

text \<open>The replacement where the turbo branch meets an entry of the wrong format.\<close>

lemma replace_data_format_error:
  assumes "turboThreshold s \<noteq> 0" and "length data' > turboThreshold s"
    and "\<not> isNumber (getFirstValidPoint data')" and "\<not> isArray (getFirstValidPoint data')"
    and "''y'' \<in> set (parallelArrays s)"
  shows "replace_data oldData data' s =
     (None, (error 12 False (reset_arrays (s\<lparr> xIncrement := None, colorCounter := 0 \<rparr>)))
        \<lparr> data := [], opt_data := data',
          heap := fold (heap_upd destroy) (rev (case oldData of None \<Rightarrow> [] | Some ps \<Rightarrow> ps)) (heap s),
          xAxis := map_option (\<lambda>a. a\<lparr>minRange := userMinRange a\<rparr>) (xAxis s),
          isDirty := True, chart_isDirtyBox := True, isDirtyData := (oldData \<noteq> None) \<rparr>)"
proof -
  let ?s2 = "reset_arrays (s\<lparr> xIncrement := None, colorCounter := 0 \<rparr>)"
  have t: "turbo_path data' ?s2 = (None, error 12 False ?s2)"
    using assms(3,4) by (simp add: turbo_path_def Let_def)
  have y: "yData (error 12 False ?s2) = []"
    using assms(5) by (simp add: xy_as_arrays(2) error_def reset_arrays_get_array)
  have x: "xAxis (error 12 False ?s2) = xAxis s"
    using fold_reset_only[of "parallelArrays (s\<lparr> xIncrement := None, colorCounter := 0 \<rparr>)"
        "s\<lparr> xIncrement := None, colorCounter := 0 \<rparr>"]
    by (auto simp: error_def reset_arrays_def)
  have h: "heap (error 12 False ?s2) = heap s"
    by (simp add: error_def)
  have c: "(if turboThreshold ?s2 \<noteq> 0 \<and> length data' > turboThreshold ?s2
            then turbo_path data' ?s2 else (None, generic_path data' ?s2))
           = (None, error 12 False ?s2)"
    using assms(1,2) t by simp
  show ?thesis
    unfolding replace_data_def Let_def c
    by (simp add: y x h arr_at_def arr_get_def)
qed


subsection \<open>Processing and materialising no data\<close>

lemma generatePoints_nothing:
  assumes "processedXData s = []" and "data s = []"
  shows "data (generatePoints s) = []" and "points (generatePoints s) = Some []"
    and "heap (generatePoints s) = heap s"
  using assms by (simp_all add: generatePoints_def Let_def release_loop.simps)

lemma getProcessedData_nothing:
  assumes "xData s = []"
  shows "pd_xData (fst (getProcessedData s f)) = []" and "snd (getProcessedData s f) = []"
proof -
  have c: "fst (crop_step s f) = []"
    using assms by (simp add: crop_step_def Let_def arr_at_def arr_get_def)
  show "pd_xData (fst (getProcessedData s f)) = []"
    by (simp add: getProcessedData_crop c)
  show "snd (getProcessedData s f) = []"
    unfolding getProcessedData_alt c by simp
qed

lemma processData_nothing:
  assumes "xData s = []" and "isDirty s"
  shows "processedXData (processData False s) = []" and "errors (processData False s) = errors s"
  using assms
  by (simp_all add: processData_def processedXData_def split_beta getProcessedData_nothing)

subsection \<open>setData: the redraw and the full replacement\<close>

lemma setData_redraw:
  "setData updateData chartRedraw data0 redraw updatePoints s =
    (case setData updateData chartRedraw data0 False updatePoints s of
       (None, t) \<Rightarrow> (None, redraw_chart redraw chartRedraw t)
     | (Some e, t) \<Rightarrow> (Some e, t))"
  by (simp add: setData_def redraw_chart_def Let_def split: prod.splits option.splits)

lemma replace_data_xIncrement:
  "replace_data oldData data' (s\<lparr> xIncrement := x \<rparr>) = replace_data oldData data' s"
  by (simp add: replace_data_def)

lemma setData_replaces:
  assumes "soft_update_gate updatePoints raw s \<longrightarrow>
      updateData (if dataSorting_enabled s then sortData s raw else raw) s = None"
  shows "setData updateData chartRedraw raw False updatePoints s =
    (case replace_data (points s) (if dataSorting_enabled s then sortData s raw else raw) s of
       (Some e, s2) \<Rightarrow> (Some e, s2)
     | (None, s2) \<Rightarrow>
         (None, if legendType s2 = Some ''point''
                then generatePoints (processData False s2) else s2))"
proof -
  let ?d = "if dataSorting_enabled s then sortData s raw else raw"
  obtain e s2 where r: "replace_data (points s) ?d s = (e, s2)"
    by (cases "replace_data (points s) ?d s") auto
  have r': "replace_data (points s) ?d (s\<lparr> xIncrement := None \<rparr>) = (e, s2)"
    unfolding replace_data_xIncrement by (rule r)
  show ?thesis
  proof (cases "soft_update_gate updatePoints raw s")
    case True
    then have u: "updateData ?d s = None" using assms by blast
    show ?thesis
      unfolding setData_def Let_def if_P[OF True] u option.case prod.case r r'
      by (cases e) (simp_all add: redraw_chart_def)
  next
    case False
    show ?thesis
      unfolding setData_def Let_def if_not_P[OF False] prod.case r
      by (cases e) (simp_all add: redraw_chart_def)
  qed
qed

text \<open>
  C1 (as amended). Let a call of \<open>setData\<close> take the full replacement (the point-wise
  update is not tried, or fails), with more entries than the turbo threshold and a first
  valid entry that is neither a number nor an array. The call reports error 12 once,
  without stop, and goes on: the parallel arrays are emptied, \<open>series.data\<close> is the empty
  array, \<open>options.data\<close> is the incoming data (sorted where data sorting is enabled), the
  points of the old \<open>series.points\<close> are destroyed, and \<open>series.points\<close> is the old array
  still (with a legend by point a new, empty one). That is the series as a call without
  redraw leaves it, and as a call that redraws hands it to the redraw of the chart.
\<close>

theorem setData_format_error:
  assumes "soft_update_gate updatePoints data0 s \<longrightarrow>
      updateData (if dataSorting_enabled s then sortData s data0 else data0) s = None"
    and "turboThreshold s \<noteq> 0"
    and "length (if dataSorting_enabled s then sortData s data0 else data0) > turboThreshold s"
    and "\<not> isNumber (getFirstValidPoint (if dataSorting_enabled s then sortData s data0 else data0))"
    and "\<not> isArray (getFirstValidPoint (if dataSorting_enabled s then sortData s data0 else data0))"
    and "''x'' \<in> set (parallelArrays s)" and "''y'' \<in> set (parallelArrays s)"
  shows "setData updateData chartRedraw data0 redraw updatePoints s =
           (None, redraw_chart redraw chartRedraw
                    (snd (setData updateData chartRedraw data0 False updatePoints s))) \<and>
         errors (snd (setData updateData chartRedraw data0 False updatePoints s))
           = errors s @ [(12, False)] \<and>
         xData (snd (setData updateData chartRedraw data0 False updatePoints s)) = [] \<and>
         yData (snd (setData updateData chartRedraw data0 False updatePoints s)) = [] \<and>
         (\<forall>k\<in>set (parallelArrays s).
            get_array (snd (setData updateData chartRedraw data0 False updatePoints s)) k = []) \<and>
         data (snd (setData updateData chartRedraw data0 False updatePoints s)) = [] \<and>
         opt_data (snd (setData updateData chartRedraw data0 False updatePoints s))
           = (if dataSorting_enabled s then sortData s data0 else data0) \<and>
         points (snd (setData updateData chartRedraw data0 False updatePoints s))
           = (if legendType s = Some ''point'' then Some [] else points s) \<and>
         heap (snd (setData updateData chartRedraw data0 False updatePoints s))
           = fold (heap_upd destroy) (rev (case points s of None \<Rightarrow> [] | Some ps \<Rightarrow> ps)) (heap s)"
proof -
  let ?d = "if dataSorting_enabled s then sortData s data0 else data0"
  let ?r = "(error 12 False (reset_arrays (s\<lparr> xIncrement := None, colorCounter := 0 \<rparr>)))
        \<lparr> data := [], opt_data := ?d,
          heap := fold (heap_upd destroy) (rev (case points s of None \<Rightarrow> [] | Some ps \<Rightarrow> ps)) (heap s),
          xAxis := map_option (\<lambda>a. a\<lparr>minRange := userMinRange a\<rparr>) (xAxis s),
          isDirty := True, chart_isDirtyBox := True, isDirtyData := (points s \<noteq> None) \<rparr>"
  let ?S = "setData updateData chartRedraw data0 False updatePoints s"
  have r: "replace_data (points s) ?d s = (None, ?r)"
    using assms(2-5,7) by (rule replace_data_format_error)
  have sd: "?S = (None, if legendType ?r = Some ''point''
                        then generatePoints (processData False ?r) else ?r)"
    unfolding setData_replaces[where updateData = updateData and raw = data0 and s = s
        and updatePoints = updatePoints, OF assms(1)] r by simp
  have rd: "setData updateData chartRedraw data0 redraw updatePoints s =
      (None, redraw_chart redraw chartRedraw (snd ?S))"
    unfolding setData_redraw[of updateData chartRedraw data0 redraw] sd by simp
  have ga: "get_array ?r k = (if k \<in> set (parallelArrays s) then [] else get_array s k)" for k
    by (simp add: error_def reset_arrays_get_array)
  have x: "xData ?r = []" and y: "yData ?r = []"
    using assms(6,7) ga[of "''x''"] ga[of "''y''"] by (simp_all add: get_array_def)
  have f: "errors ?r = errors s @ [(12, False)]" "data ?r = []" "opt_data ?r = ?d"
    "points ?r = points s" "legendType ?r = legendType s" "isDirty ?r"
    "heap ?r = fold (heap_upd destroy) (rev (case points s of None \<Rightarrow> [] | Some ps \<Rightarrow> ps)) (heap s)"
    by (simp_all add: error_def)
  have rest: "errors (snd ?S) = errors s @ [(12, False)] \<and>
         xData (snd ?S) = [] \<and> yData (snd ?S) = [] \<and>
         (\<forall>k\<in>set (parallelArrays s). get_array (snd ?S) k = []) \<and>
         data (snd ?S) = [] \<and> opt_data (snd ?S) = ?d \<and>
         points (snd ?S) = (if legendType s = Some ''point'' then Some [] else points s) \<and>
         heap (snd ?S)
           = fold (heap_upd destroy) (rev (case points s of None \<Rightarrow> [] | Some ps \<Rightarrow> ps)) (heap s)"
  proof (cases "legendType s = Some ''point''")
    case True
    let ?p = "processData False ?r"
    have p: "processedXData ?p = []" "errors ?p = errors ?r"
      using processData_nothing[OF x f(6)] by simp_all
    have pd: "data ?p = []" using f(2) by simp
    have res: "snd ?S = generatePoints ?p"
      using True f(5) by (simp add: sd)
    show ?thesis
      unfolding res
      using generatePoints_nothing[OF p(1) pd] p(2) f x y ga True by simp
  next
    case False
    have res: "snd ?S = ?r"
      using False f(5) by (simp add: sd)
    show ?thesis
      unfolding res using f x y ga False by simp
  qed
  show ?thesis
    by (rule conjI[OF rd rest])
qed

lemma turbo_series_facts:
  "soft_update_gate True d turbo_series = False"
  "dataSorting_enabled turbo_series = False"
  "turboThreshold turbo_series = 2"
  "''x'' \<in> set (parallelArrays turbo_series)" "''y'' \<in> set (parallelArrays turbo_series)"
  "errors turbo_series = []" "points turbo_series = None"
  "legendType turbo_series = None"
  "xData turbo_series = map Num [0, 1]" "yData turbo_series = map Num [5, 6]"
  "opt_data turbo_series = map Num [5, 6]"
  by (simp_all add: turbo_series_def default_series_def soft_update_gate_def)

theorem setData_format_error_witness:
  "setData no_update plain_redraw [Str ''a'', Str ''b'', Str ''c''] True True pie_series =
     (None, redraw_chart True plain_redraw
        (snd (setData no_update plain_redraw [Str ''a'', Str ''b'', Str ''c''] False True pie_series))) \<and>
   errors (snd (setData no_update plain_redraw [Str ''a'', Str ''b'', Str ''c''] False True pie_series))
     = [(12, False)] \<and>
   xData (snd (setData no_update plain_redraw [Str ''a'', Str ''b'', Str ''c''] False True pie_series)) = [] \<and>
   yData (snd (setData no_update plain_redraw [Str ''a'', Str ''b'', Str ''c''] False True pie_series)) = [] \<and>
   opt_data (snd (setData no_update plain_redraw [Str ''a'', Str ''b'', Str ''c''] False True pie_series))
     = [Str ''a'', Str ''b'', Str ''c''] \<and>
   points (snd (setData no_update plain_redraw [Str ''a'', Str ''b'', Str ''c''] False True pie_series))
     = Some []"
proof -
  have p: "turboThreshold pie_series \<noteq> 0" "dataSorting_enabled pie_series = False"
    "turboThreshold pie_series = 2"
    "''x'' \<in> set (parallelArrays pie_series)" "''y'' \<in> set (parallelArrays pie_series)"
    "errors pie_series = []" "legendType pie_series = Some ''point''"
    by (simp_all add: pie_series_def turbo_series_facts)
  have g: "soft_update_gate True [Str ''a'', Str ''b'', Str ''c''] pie_series \<longrightarrow>
      no_update (if dataSorting_enabled pie_series
                 then sortData pie_series [Str ''a'', Str ''b'', Str ''c'']
                 else [Str ''a'', Str ''b'', Str ''c'']) pie_series = None"
    by (simp add: no_update_def)
  from setData_format_error[of True "[Str ''a'', Str ''b'', Str ''c'']" pie_series no_update
      plain_redraw True, OF g p(1)]
  show ?thesis using p by simp
qed

text \<open>
  The claim as stated fails: the call does not abort. The series held the x values 0 and
  1; after \<open>setData\<close> with three objects (more than the turbo threshold of 2), here
  without redraw, it holds no x and no y values, and \<open>options.data\<close> is the new data.
\<close>

theorem setData_format_error_mutates:
  "xData turbo_series = [Num 0, Num 1] \<and>
   opt_data turbo_series = [Num 5, Num 6] \<and>
   fst (setData no_update plain_redraw
          [Obj [(''y'', Num 1)], Obj [(''y'', Num 2)], Obj [(''y'', Num 3)]]
          False True turbo_series) = None \<and>
   errors (snd (setData no_update plain_redraw
          [Obj [(''y'', Num 1)], Obj [(''y'', Num 2)], Obj [(''y'', Num 3)]]
          False True turbo_series)) = [(12, False)] \<and>
   xData (snd (setData no_update plain_redraw
          [Obj [(''y'', Num 1)], Obj [(''y'', Num 2)], Obj [(''y'', Num 3)]]
          False True turbo_series)) = [] \<and>
   yData (snd (setData no_update plain_redraw
          [Obj [(''y'', Num 1)], Obj [(''y'', Num 2)], Obj [(''y'', Num 3)]]
          False True turbo_series)) = [] \<and>
   opt_data (snd (setData no_update plain_redraw
          [Obj [(''y'', Num 1)], Obj [(''y'', Num 2)], Obj [(''y'', Num 3)]]
          False True turbo_series))
     = [Obj [(''y'', Num 1)], Obj [(''y'', Num 2)], Obj [(''y'', Num 3)]]"
proof -
  let ?d = "[Obj [(''y'', Num 1)], Obj [(''y'', Num 2)], Obj [(''y'', Num 3)]]"
  let ?r = "(error 12 False (reset_arrays (turbo_series\<lparr> xIncrement := None, colorCounter := 0 \<rparr>)))
        \<lparr> data := [], opt_data := ?d,
          heap := fold (heap_upd destroy) (rev (case None of None \<Rightarrow> [] | Some ps \<Rightarrow> ps)) (heap turbo_series),
          xAxis := map_option (\<lambda>a. a\<lparr>minRange := userMinRange a\<rparr>) (xAxis turbo_series),
          isDirty := True, chart_isDirtyBox := True,
          isDirtyData := (None \<noteq> (None :: ref option list option)) \<rparr>"
  have r: "replace_data None ?d turbo_series = (None, ?r)"
    by (rule replace_data_format_error) (simp_all add: turbo_series_facts)
  have l: "legendType ?r = None"
    by (simp add: error_def turbo_series_facts)
  have sd: "setData no_update plain_redraw ?d False True turbo_series = (None, ?r)"
    unfolding setData_def Let_def turbo_series_facts
    using r l by (simp add: redraw_chart_def)
  have ga: "get_array (reset_arrays (turbo_series\<lparr> xIncrement := None, colorCounter := 0 \<rparr>)) k = []"
    if "k = ''x'' \<or> k = ''y''" for k
    using that by (auto simp: reset_arrays_get_array turbo_series_facts)
  have x: "xData ?r = []" "yData ?r = []"
    using ga[of "''x''"] ga[of "''y''"] by (simp_all add: error_def get_array_def)
  have f: "errors ?r = [(12, False)]" "opt_data ?r = ?d"
    by (simp_all add: error_def turbo_series_facts)
  show ?thesis
    unfolding sd using x f by (simp add: turbo_series_facts)
qed
subsection \<open>sortData\<close>

lemma sort_insert_insort_key:
  assumes "\<forall>b\<in>set bs. (case cmp a b of None \<Rightarrow> True | Some c \<Rightarrow> c \<le> 0) \<longleftrightarrow> f a \<le> f b"
  shows "sort_insert cmp a bs = insort_key f a bs"
  using assms by (induction bs) (auto split: option.splits)

lemma js_sort_sort_key:
  assumes "\<forall>a\<in>set xs. \<forall>b\<in>set xs.
             (case cmp a b of None \<Rightarrow> True | Some c \<Rightarrow> c \<le> 0) \<longleftrightarrow> f a \<le> f (b :: 'a) "
  shows "js_sort cmp xs = sort_key (f :: 'a \<Rightarrow> real) xs"
  using assms
proof (induction xs)
  case Nil
  then show ?case by (simp add: js_sort_def)
next
  case (Cons a xs)
  then have ih: "js_sort cmp xs = sort_key f xs" by simp
  have "\<forall>b\<in>set (sort_key f xs).
          (case cmp a b of None \<Rightarrow> True | Some c \<Rightarrow> c \<le> 0) \<longleftrightarrow> f a \<le> f b"
    using Cons.prems by simp
  then have "sort_insert cmp a (sort_key f xs) = insort_key f a (sort_key f xs)"
    by (rule sort_insert_insort_key)
  then show ?case
    using ih by (simp add: js_sort_def sort_key_def)
qed

lemma obj_get_set [simp]:
  "obj_get (obj_set ob k v) k' = (if k' = k then v else obj_get ob k')"
  by (induction ob) (auto simp: obj_get_def)

lemma length_indexed_options [simp]: "length (indexed_options data') = length data'"
  by (simp add: indexed_options_def)

lemma indexed_options_nth:
  "i < length data' \<Longrightarrow>
   indexed_options data' ! i = obj_set (getPointOptionsObject (data' ! i)) ''index'' (Num (real i))"
  by (simp add: indexed_options_def)

text \<open>With numeric sort keys the comparator orders by the negated key.\<close>

lemma sort_compare_numeric:
  assumes "getNestedProperty key a = Num va" and "getNestedProperty key b = Num vb"
  shows "(case sort_compare key a b of None \<Rightarrow> True | Some c \<Rightarrow> c \<le> 0) \<longleftrightarrow> - va \<le> - vb"
  using assms by (auto simp: sort_compare_def Let_def)

lemma sorted_refs_sort_key:
  assumes "\<forall>ob\<in>set (indexed_options data'). isNumber (getNestedProperty (the_sortKey s) ob)"
  shows "sorted_refs s data' = sort_key (\<lambda>r. - sort_value s data' r) [0..<length data']"
  unfolding sorted_refs_def
proof (rule js_sort_sort_key, intro ballI)
  fix a b assume "a \<in> set [0..<length data']" "b \<in> set [0..<length data']"
  then have "indexed_options data' ! a \<in> set (indexed_options data')"
    "indexed_options data' ! b \<in> set (indexed_options data')"
    by simp_all
  with assms have "isNumber (getNestedProperty (the_sortKey s) (indexed_options data' ! a))"
    "isNumber (getNestedProperty (the_sortKey s) (indexed_options data' ! b))"
    by blast+
  then obtain va vb where
    v: "getNestedProperty (the_sortKey s) (indexed_options data' ! a) = Num va"
       "getNestedProperty (the_sortKey s) (indexed_options data' ! b) = Num vb"
    by (metis isNumber.elims(2))
  then have "sort_value s data' a = va" "sort_value s data' b = vb"
    by (simp_all add: sort_value_def)
  with sort_compare_numeric[OF v]
  show "(case sort_compare (the_sortKey s) (indexed_options data' ! a) (indexed_options data' ! b) of
           None \<Rightarrow> True | Some c \<Rightarrow> c \<le> 0)
        = (- sort_value s data' a \<le> - sort_value s data' b)"
    by simp
qed

text \<open>Writing the positions into the objects of the sorted copy.\<close>

lemma assign_x_general:
  assumes "distinct refs" and "\<forall>r\<in>set refs. r < length objs"
  shows "length (fold (\<lambda>(i, r) os. os[r := obj_set (os ! r) ''x'' (Num (real i))])
                   (zip [k..<k + length refs] refs) objs) = length objs \<and>
         (\<forall>j<length refs.
            fold (\<lambda>(i, r) os. os[r := obj_set (os ! r) ''x'' (Num (real i))])
              (zip [k..<k + length refs] refs) objs ! (refs ! j)
            = obj_set (objs ! (refs ! j)) ''x'' (Num (real (k + j)))) \<and>
         (\<forall>r. r \<notin> set refs \<longrightarrow>
            fold (\<lambda>(i, r) os. os[r := obj_set (os ! r) ''x'' (Num (real i))])
              (zip [k..<k + length refs] refs) objs ! r = objs ! r)"
  using assms
proof (induction refs arbitrary: k objs)
  case Nil
  then show ?case by simp
next
  case (Cons a refs)
  let ?step = "\<lambda>(i, r) os. os[r := obj_set (os ! r) ''x'' (Num (real i))]"
  let ?o1 = "objs[a := obj_set (objs ! a) ''x'' (Num (real k))]"
  have "[k..<k + length (a # refs)] = k # [Suc k..<Suc k + length refs]"
    by (subst upt_rec) simp
  then have z: "zip [k..<k + length (a # refs)] (a # refs) = (k, a) # zip [Suc k..<Suc k + length refs] refs"
    by (simp only: zip_Cons_Cons)
  have d: "distinct refs" "a \<notin> set refs" "\<forall>r\<in>set refs. r < length ?o1" "a < length objs"
    using Cons.prems by simp_all
  note ih = Cons.IH[OF d(1) d(3), of "Suc k"]
  have f: "fold ?step (zip [k..<k + length (a # refs)] (a # refs)) objs
         = fold ?step (zip [Suc k..<Suc k + length refs] refs) ?o1"
    unfolding z by simp
  show ?case
    unfolding f
  proof (intro conjI allI impI)
    show "length (fold ?step (zip [Suc k..<Suc k + length refs] refs) ?o1) = length objs"
      using ih by simp
  next
    fix j assume j: "j < length (a # refs)"
    show "fold ?step (zip [Suc k..<Suc k + length refs] refs) ?o1 ! ((a # refs) ! j)
          = obj_set (objs ! ((a # refs) ! j)) ''x'' (Num (real (k + j)))"
    proof (cases j)
      case 0
      then show ?thesis using ih d(2,4) by simp
    next
      case (Suc m)
      then have m: "m < length refs" using j by simp
      then have "refs ! m \<noteq> a" using d(2) by (metis nth_mem)
      then show ?thesis using ih m Suc by simp
    qed
  next
    fix r assume "r \<notin> set (a # refs)"
    then show "fold ?step (zip [Suc k..<Suc k + length refs] refs) ?o1 ! r = objs ! r"
      using ih by simp
  qed
qed

lemma assign_x_nth:
  assumes "distinct refs" and "\<forall>r\<in>set refs. r < length objs" and "j < length refs"
  shows "assign_x refs objs ! (refs ! j) = obj_set (objs ! (refs ! j)) ''x'' (Num (real j))"
    and "length (assign_x refs objs) = length objs"
  using assign_x_general[OF assms(1,2), of 0] assms(3) by (simp_all add: assign_x_def)


lemma set_sort_insert: "set (sort_insert cmp a bs) = insert a (set bs)"
  by (induction bs) (auto split: option.splits)

lemma distinct_sort_insert: "distinct (sort_insert cmp a bs) = (a \<notin> set bs \<and> distinct bs)"
  by (induction bs) (auto simp: set_sort_insert split: option.splits)

lemma set_js_sort: "set (js_sort cmp xs) = set xs"
  by (induction xs) (simp_all add: js_sort_def set_sort_insert)

lemma distinct_js_sort: "distinct (js_sort cmp xs) = distinct xs"
  by (induction xs) (simp_all add: js_sort_def distinct_sort_insert set_js_sort[unfolded js_sort_def])

lemma sorted_refs_perm:
  "set (sorted_refs s data') = {0..<length data'}" "distinct (sorted_refs s data')"
  "length (sorted_refs s data') = length data'"
  by (simp_all add: sorted_refs_def set_js_sort distinct_js_sort length_js_sort)

lemma sortData_nth:
  assumes "i < length data'"
  shows "sortData s data' ! (sorted_refs s data' ! i)
           = Obj (obj_set (indexed_options data' ! (sorted_refs s data' ! i)) ''x'' (Num (real i)))"
proof -
  have b: "\<forall>r\<in>set (sorted_refs s data'). r < length (indexed_options data')"
    by (simp add: sorted_refs_perm)
  have j: "i < length (sorted_refs s data')"
    using assms by (simp add: sorted_refs_perm)
  have r: "sorted_refs s data' ! i < length data'"
    using j sorted_refs_perm(1)[of s data'] by (metis atLeastLessThan_iff nth_mem)
  note a = assign_x_nth[OF sorted_refs_perm(2) b j]
  show ?thesis
    using r a by (simp add: sortData_def)
qed

lemma length_sortData [simp]: "length (sortData s data') = length data'"
proof -
  have "\<forall>r\<in>set (sorted_refs s data'). r < length (indexed_options data')"
    by (simp add: sorted_refs_perm)
  from assign_x_general[OF sorted_refs_perm(2) this, of 0]
  show ?thesis by (simp add: sortData_def assign_x_def)
qed

lemma sortData_example:
  assumes "sortKey s = None"
  shows "sorted_refs s (map Num [3, 1, 2]) = [0, 2, 1]"
    and "sortData s (map Num [3, 1, 2]) =
      [Obj [(''y'', Num 3), (''index'', Num 0), (''x'', Num 0)],
       Obj [(''y'', Num 1), (''index'', Num 1), (''x'', Num 2)],
       Obj [(''y'', Num 2), (''index'', Num 2), (''x'', Num 1)]]"
proof -
  have u: "[0..<3] = [0, 1, 2]" by (simp add: upt_rec)
  have io: "indexed_options [Num 3, Num 1, Num 2] =
      [[(''y'', Num 3), (''index'', Num 0)], [(''y'', Num 1), (''index'', Num 1)],
       [(''y'', Num 2), (''index'', Num 2)]]"
    by (simp add: indexed_options_def u getPointOptionsObject_def)
  have r: "sorted_refs s [Num 3, Num 1, Num 2] = [0, 2, 1]"
    using assms
    by (simp add: sorted_refs_def io u js_sort_def sort_compare_def the_sortKey_def
        getNestedProperty_def obj_get_def Let_def)
  then show "sorted_refs s (map Num [3, 1, 2]) = [0, 2, 1]"
    by simp
  show "sortData s (map Num [3, 1, 2]) =
      [Obj [(''y'', Num 3), (''index'', Num 0), (''x'', Num 0)],
       Obj [(''y'', Num 1), (''index'', Num 1), (''x'', Num 2)],
       Obj [(''y'', Num 2), (''index'', Num 2), (''x'', Num 1)]]"
    by (simp add: sortData_def r io assign_x_def u)
qed

text \<open>
  C7. With numeric sort keys, \<open>sortData\<close> sorts a copy of the entries descending by the
  sort key (default \<open>y\<close>), entries with equal keys keeping their original order, and
  gives each entry as its x its index in the sorted copy; the array it returns holds
  these entries at their original positions. For the y values 3, 1, 2 the sorted entries
  have the y values 3, 2, 1 and the x values 0, 1, 2.
\<close>

theorem sortData_descending_stable:
  assumes "\<forall>ob\<in>set (indexed_options data'). isNumber (getNestedProperty (the_sortKey s) ob)"
  shows "length (sortedData s data') = length data' \<and>
         set (sorted_refs s data') = {0..<length data'} \<and> distinct (sorted_refs s data') \<and>
         sorted_wrt (\<lambda>a b. sort_value s data' a \<ge> sort_value s data' b) (sorted_refs s data') \<and>
         (\<forall>v. filter (\<lambda>r. sort_value s data' r = v) (sorted_refs s data')
              = filter (\<lambda>r. sort_value s data' r = v) [0..<length data']) \<and>
         (\<forall>i<length data'.
            sortedData s data' ! i
              = Obj (obj_set (indexed_options data' ! (sorted_refs s data' ! i)) ''x'' (Num (real i))) \<and>
            sortData s data' ! (sorted_refs s data' ! i) = sortedData s data' ! i) \<and>
         (data' = map Num [3, 1, 2] \<and> sortKey s = None \<longrightarrow>
            sortedData s data' =
              [Obj [(''y'', Num 3), (''index'', Num 0), (''x'', Num 0)],
               Obj [(''y'', Num 2), (''index'', Num 2), (''x'', Num 1)],
               Obj [(''y'', Num 1), (''index'', Num 1), (''x'', Num 2)]] \<and>
            sortData s data' =
              [Obj [(''y'', Num 3), (''index'', Num 0), (''x'', Num 0)],
               Obj [(''y'', Num 1), (''index'', Num 1), (''x'', Num 2)],
               Obj [(''y'', Num 2), (''index'', Num 2), (''x'', Num 1)]])"
proof -
  note sk = sorted_refs_sort_key[OF assms]
  have l: "length (sortedData s data') = length data'"
    by (simp add: sortedData_def sorted_refs_perm)
  have "sorted (map (\<lambda>r. - sort_value s data' r) (sorted_refs s data'))"
    unfolding sk by (rule sorted_sort_key)
  then have srt: "sorted_wrt (\<lambda>a b. sort_value s data' a \<ge> sort_value s data' b) (sorted_refs s data')"
    by (simp add: sorted_map)
  have st: "filter (\<lambda>r. sort_value s data' r = v) (sorted_refs s data')
              = filter (\<lambda>r. sort_value s data' r = v) [0..<length data']" for v
    unfolding sk
    using sort_key_stable[of "\<lambda>r. - sort_value s data' r" "- v" "[0..<length data']"]
    by simp
  have nth: "sortedData s data' ! i
              = Obj (obj_set (indexed_options data' ! (sorted_refs s data' ! i)) ''x'' (Num (real i))) \<and>
            sortData s data' ! (sorted_refs s data' ! i) = sortedData s data' ! i"
    if "i < length data'" for i
    using that by (simp add: sortedData_def sorted_refs_perm sortData_nth)
  have ex: "sortedData s data' =
              [Obj [(''y'', Num 3), (''index'', Num 0), (''x'', Num 0)],
               Obj [(''y'', Num 2), (''index'', Num 2), (''x'', Num 1)],
               Obj [(''y'', Num 1), (''index'', Num 1), (''x'', Num 2)]] \<and>
            sortData s data' =
              [Obj [(''y'', Num 3), (''index'', Num 0), (''x'', Num 0)],
               Obj [(''y'', Num 1), (''index'', Num 1), (''x'', Num 2)],
               Obj [(''y'', Num 2), (''index'', Num 2), (''x'', Num 1)]]"
    if "data' = map Num [3, 1, 2] \<and> sortKey s = None"
    using that sortData_example[of s] by (simp add: sortedData_def)
  show ?thesis
    using l sorted_refs_perm(1,2)[of s data'] srt st nth ex by blast
qed

theorem sortData_descending_stable_witness:
  "sorted_refs default_series (map Num [2, 5, 2, 7]) = [3, 1, 0, 2] \<and>
   sortedData default_series (map Num [2, 5, 2, 7]) ! 2
     = Obj [(''y'', Num 2), (''index'', Num 0), (''x'', Num 2)] \<and>
   sortedData default_series (map Num [2, 5, 2, 7]) ! 3
     = Obj [(''y'', Num 2), (''index'', Num 2), (''x'', Num 3)] \<and>
   sortData default_series (map Num [2, 5, 2, 7]) ! 2
     = Obj [(''y'', Num 2), (''index'', Num 2), (''x'', Num 3)]"
proof -
  have u: "[0..<4] = [0, 1, 2, 3]" by (simp add: upt_rec)
  have io: "indexed_options [Num 2, Num 5, Num 2, Num 7] =
      [[(''y'', Num 2), (''index'', Num 0)], [(''y'', Num 5), (''index'', Num 1)],
       [(''y'', Num 2), (''index'', Num 2)], [(''y'', Num 7), (''index'', Num 3)]]"
    by (simp add: indexed_options_def u getPointOptionsObject_def)
  have k: "the_sortKey default_series = ''y''"
    by (simp add: the_sortKey_def default_series_def)
  have n: "\<forall>ob\<in>set (indexed_options (map Num [2, 5, 2, 7])).
      isNumber (getNestedProperty (the_sortKey default_series) ob)"
    by (simp add: io k getNestedProperty_def obj_get_def)
  have r': "sorted_refs default_series [Num 2, Num 5, Num 2, Num 7] = [3, 1, 0, 2]"
    by (simp add: sorted_refs_def io u js_sort_def sort_compare_def k
        getNestedProperty_def obj_get_def Let_def)
  then have r: "sorted_refs default_series (map Num [2, 5, 2, 7]) = [3, 1, 0, 2]"
    by simp
  from sortData_descending_stable[OF n]
  have "\<forall>i<4. sortedData default_series (map Num [2, 5, 2, 7]) ! i
              = Obj (obj_set (indexed_options (map Num [2, 5, 2, 7])
                       ! (sorted_refs default_series (map Num [2, 5, 2, 7]) ! i)) ''x'' (Num (real i))) \<and>
            sortData default_series (map Num [2, 5, 2, 7])
                ! (sorted_refs default_series (map Num [2, 5, 2, 7]) ! i)
              = sortedData default_series (map Num [2, 5, 2, 7]) ! i"
    by simp
  then have "\<forall>i<4. sortedData default_series (map Num [2, 5, 2, 7]) ! i
              = Obj (obj_set ([[(''y'', Num 2), (''index'', Num 0)], [(''y'', Num 5), (''index'', Num 1)],
       [(''y'', Num 2), (''index'', Num 2)], [(''y'', Num 7), (''index'', Num 3)]]
                       ! ([3, 1, 0, 2] ! i)) ''x'' (Num (real i))) \<and>
            sortData default_series (map Num [2, 5, 2, 7]) ! ([3, 1, 0, 2] ! i)
              = sortedData default_series (map Num [2, 5, 2, 7]) ! i"
    unfolding r by (simp only: io list.map)
  then have a: "i < 4 \<Longrightarrow> sortedData default_series (map Num [2, 5, 2, 7]) ! i
              = Obj (obj_set ([[(''y'', Num 2), (''index'', Num 0)], [(''y'', Num 5), (''index'', Num 1)],
       [(''y'', Num 2), (''index'', Num 2)], [(''y'', Num 7), (''index'', Num 3)]]
                       ! ([3, 1, 0, 2] ! i)) ''x'' (Num (real i))) \<and>
            sortData default_series (map Num [2, 5, 2, 7]) ! ([3, 1, 0, 2] ! i)
              = sortedData default_series (map Num [2, 5, 2, 7]) ! i" for i
    by blast
  have "sortedData default_series (map Num [2, 5, 2, 7]) ! 2
     = Obj [(''y'', Num 2), (''index'', Num 0), (''x'', Num 2)]"
    "sortedData default_series (map Num [2, 5, 2, 7]) ! 3
     = Obj [(''y'', Num 2), (''index'', Num 2), (''x'', Num 3)]"
    "sortData default_series (map Num [2, 5, 2, 7]) ! 2
     = sortedData default_series (map Num [2, 5, 2, 7]) ! 3"
    using a[of 2] a[of 3] by (simp_all add: eval_nat_numeral)
  with r show ?thesis by simp
qed

subsection \<open>The turbo path and the generic path on numbers\<close>

lemma fold_related:
  assumes "\<And>i s t. i \<in> set js \<Longrightarrow> R s t \<Longrightarrow> R (f i s) (g i t)" and "R s t"
  shows "R (fold f js s) (fold g js t)"
  using assms by (induction js arbitrary: s t) simp_all

lemma autoIncrement_same_xy:
  "autoIncrement (s\<lparr> otherData := other, turboThreshold := threshold \<rparr>) =
     (fst (autoIncrement s), (snd (autoIncrement s))\<lparr> otherData := other, turboThreshold := threshold \<rparr>)"
  by (cases "pointIntervalUnit s") (simp_all add: autoIncrement_def Let_def)

lemma autoIncrement_fields [simp]:
  "toYData (snd (autoIncrement s)) = toYData s"
  "parallelArrays (snd (autoIncrement s)) = parallelArrays s"
  "xData (snd (autoIncrement s)) = xData s"
  "yData (snd (autoIncrement s)) = yData s"
  "get_array (snd (autoIncrement s)) = get_array s"
  using autoIncrement_only[of s] by auto

text \<open>One iteration of the generic loop on a number, with no \<open>toYData\<close> hook.\<close>

lemma generic_step_number:
  assumes "toYData t = None" and "distinct (parallelArrays t)"
    and "''x'' \<in> set (parallelArrays t)" and "''y'' \<in> set (parallelArrays t)"
  shows "\<exists>other.
     (case applyOptions (Num n) t of (pt, t') \<Rightarrow> updateParallelArrays pt (AtIndex i) t') =
     (snd (autoIncrement t))
       \<lparr> xData := arr_set Undefined (xData (snd (autoIncrement t))) i (Num (fst (autoIncrement t))),
         yData := arr_set Undefined (yData (snd (autoIncrement t))) i (Num n),
         otherData := other \<rparr>"
proof -
  let ?pt = "[(''y'', Num n), (''x'', Num (fst (autoIncrement t)))]"
  let ?t' = "snd (autoIncrement t)"
  let ?u = "updateParallelArrays ?pt (AtIndex i) ?t'"
  have a: "applyOptions (Num n) t = (?pt, ?t')"
    by (simp add: applyOptions_def Let_def obj_get_def split_beta)
  have d: "distinct (parallelArrays ?t')" "toYData ?t' = None"
    "''x'' \<in> set (parallelArrays ?t')" "''y'' \<in> set (parallelArrays ?t')"
    using assms by simp_all
  have x: "xData ?u = arr_set Undefined (xData ?t') i (Num (fst (autoIncrement t)))"
    unfolding xy_as_arrays
    using d by (simp add: updateParallelArrays_get_array pa_result_AtIndex obj_get_def)
  have y: "yData ?u = arr_set Undefined (yData ?t') i (Num n)"
    unfolding xy_as_arrays
    using d by (simp add: updateParallelArrays_get_array pa_result_AtIndex obj_get_def)
  obtain xs ys os where u: "?u = ?t'\<lparr> xData := xs, yData := ys, otherData := os \<rparr>"
    using updateParallelArrays_only[of ?pt "AtIndex i" ?t'] by blast
  have "xData ?u = xs" by (subst u) simp
  with x have xs: "xs = arr_set Undefined (xData ?t') i (Num (fst (autoIncrement t)))"
    by simp
  have "yData ?u = ys" by (subst u) simp
  with y have ys: "ys = arr_set Undefined (yData ?t') i (Num n)"
    by simp
  have "?u = ?t'\<lparr> xData := arr_set Undefined (xData ?t') i (Num (fst (autoIncrement t))),
         yData := arr_set Undefined (yData ?t') i (Num n), otherData := os \<rparr>"
    unfolding xs[symmetric] ys[symmetric] by (rule u)
  then show ?thesis
    unfolding a by (simp only: prod.case) blast
qed


lemma turbo_generic_step:
  assumes "same_xy s t" and "toYData s = None" and "distinct (parallelArrays s)"
    and "''x'' \<in> set (parallelArrays s)" and "''y'' \<in> set (parallelArrays s)"
  shows "same_xy
      (case autoIncrement s of
         (x, s') \<Rightarrow> s'\<lparr> xData := arr_set Undefined (xData s') i (Num x),
                       yData := arr_set Undefined (yData s') i (Num n) \<rparr>)
      (case applyOptions (Num n) t of (pt, t') \<Rightarrow> updateParallelArrays pt (AtIndex i) t')"
proof -
  obtain other threshold where t: "t = s\<lparr> otherData := other, turboThreshold := threshold \<rparr>"
    using assms(1) by (auto simp: same_xy_def)
  have c: "toYData t = None" "distinct (parallelArrays t)"
    "''x'' \<in> set (parallelArrays t)" "''y'' \<in> set (parallelArrays t)"
    using assms(2-5) by (simp_all add: t)
  obtain os where g:
    "(case applyOptions (Num n) t of (pt, t') \<Rightarrow> updateParallelArrays pt (AtIndex i) t') =
     (snd (autoIncrement t))
       \<lparr> xData := arr_set Undefined (xData (snd (autoIncrement t))) i (Num (fst (autoIncrement t))),
         yData := arr_set Undefined (yData (snd (autoIncrement t))) i (Num n),
         otherData := os \<rparr>"
    using generic_step_number[OF c] by blast
  have a: "autoIncrement t =
     (fst (autoIncrement s), (snd (autoIncrement s))\<lparr> otherData := other, turboThreshold := threshold \<rparr>)"
    unfolding t by (rule autoIncrement_same_xy)
  show ?thesis
    unfolding g a same_xy_def
    by (rule exI[of _ os], rule exI[of _ threshold]) (simp add: split_beta)
qed

lemma same_xy_fields:
  assumes "same_xy s t"
  shows "toYData t = toYData s" "parallelArrays t = parallelArrays s"
    "xData t = xData s" "yData t = yData s" "xIncrement t = xIncrement s"
  using assms by (auto simp: same_xy_def)

lemma turbo_step_fields:
  "toYData (case autoIncrement s of
         (x, s') \<Rightarrow> s'\<lparr> xData := arr_set Undefined (xData s') i (Num x),
                       yData := arr_set Undefined (yData s') i v \<rparr>) = toYData s"
  "parallelArrays (case autoIncrement s of
         (x, s') \<Rightarrow> s'\<lparr> xData := arr_set Undefined (xData s') i (Num x),
                       yData := arr_set Undefined (yData s') i v \<rparr>) = parallelArrays s"
  by (simp_all add: split_beta)

lemma turbo_generic_paths:
  assumes "same_xy s t" and "toYData s = None" and "distinct (parallelArrays s)"
    and "''x'' \<in> set (parallelArrays s)" and "''y'' \<in> set (parallelArrays s)"
  shows "same_xy (turbo_numbers (map Num ns) s) (generic_path (map Num ns) t)"
proof -
  let ?R = "\<lambda>s t. same_xy s t \<and> toYData s = None \<and> distinct (parallelArrays s) \<and>
              ''x'' \<in> set (parallelArrays s) \<and> ''y'' \<in> set (parallelArrays s)"
  let ?f = "\<lambda>i s. case autoIncrement s of
                  (x, s') \<Rightarrow> s'\<lparr> xData := arr_set Undefined (xData s') (int i) (Num x),
                                yData := arr_set Undefined (yData s') (int i) (map Num ns ! i) \<rparr>"
  let ?g = "\<lambda>i s. if map Num ns ! i \<noteq> Undefined
                then (case applyOptions (map Num ns ! i) s of
                        (pt, s') \<Rightarrow> updateParallelArrays pt (AtIndex (int i)) s')
                else s"
  have step: "?R (?f i s) (?g i t)" if "i \<in> set [0..<length (map Num ns)]" and "?R s t" for i s t
  proof -
    have n: "map Num ns ! i = Num (ns ! i)" using that(1) by simp
    from that(2) have "same_xy (?f i s) (?g i t)"
      unfolding n using turbo_generic_step[of s t "int i" "ns ! i"] by simp
    moreover have "toYData (?f i s) = toYData s" "parallelArrays (?f i s) = parallelArrays s"
      by (rule turbo_step_fields)+
    ultimately show ?thesis using that(2) by simp
  qed
  have "?R (fold ?f [0..<length (map Num ns)] s) (fold ?g [0..<length (map Num ns)] t)"
    by (rule fold_related[where R = ?R, OF step]) (use assms in simp_all)
  then show ?thesis
    by (simp add: turbo_numbers_def generic_path_def)
qed

lemma getFirstValidPoint_numbers:
  "ns \<noteq> [] \<Longrightarrow> isNumber (getFirstValidPoint (map Num ns))"
  by (cases ns) simp_all

lemma reset_arrays_same_xy:
  "reset_arrays (s\<lparr> turboThreshold := threshold \<rparr>) = (reset_arrays s)\<lparr> turboThreshold := threshold \<rparr>"
proof -
  have one: "set_array k a (u\<lparr> turboThreshold := threshold \<rparr>)
        = (set_array k a u)\<lparr> turboThreshold := threshold \<rparr>" for k a u
    by (simp add: set_array_def)
  have "fold (\<lambda>key. set_array key []) ks (s\<lparr> turboThreshold := threshold \<rparr>)
        = (fold (\<lambda>key. set_array key []) ks s)\<lparr> turboThreshold := threshold \<rparr>" for ks
    by (induction ks arbitrary: s) (simp_all add: one)
  then show ?thesis by (simp add: reset_arrays_def)
qed

text \<open>What the replacement and \<open>setData\<close> keep of the arrays that the two paths fill.\<close>

lemma replace_data_keeps:
  assumes "(if turboThreshold (reset_arrays (s\<lparr> xIncrement := None, colorCounter := 0 \<rparr>)) \<noteq> 0 \<and>
               length data' > turboThreshold (reset_arrays (s\<lparr> xIncrement := None, colorCounter := 0 \<rparr>))
            then turbo_path data' (reset_arrays (s\<lparr> xIncrement := None, colorCounter := 0 \<rparr>))
            else (None, generic_path data' (reset_arrays (s\<lparr> xIncrement := None, colorCounter := 0 \<rparr>))))
           = (None, s3)"
  shows "fst (replace_data oldData data' s) = None"
    and "xData (snd (replace_data oldData data' s)) = xData s3"
    and "yData (snd (replace_data oldData data' s)) = yData s3"
    and "xIncrement (snd (replace_data oldData data' s)) = xIncrement s3"
  unfolding replace_data_def Let_def assms by (simp_all add: error_def)

lemma setData_keeps:
  assumes "soft_update_gate updatePoints raw s \<longrightarrow>
      updateData (if dataSorting_enabled s then sortData s raw else raw) s = None"
    and "fst (replace_data (points s) (if dataSorting_enabled s then sortData s raw else raw) s) = None"
  shows "setData updateData chartRedraw raw redraw updatePoints s =
           (None, redraw_chart redraw chartRedraw
                    (snd (setData updateData chartRedraw raw False updatePoints s)))"
    and "xData (snd (setData updateData chartRedraw raw False updatePoints s))
           = xData (snd (replace_data (points s)
                           (if dataSorting_enabled s then sortData s raw else raw) s))"
    and "yData (snd (setData updateData chartRedraw raw False updatePoints s))
           = yData (snd (replace_data (points s)
                           (if dataSorting_enabled s then sortData s raw else raw) s))"
    and "xIncrement (snd (setData updateData chartRedraw raw False updatePoints s))
           = xIncrement (snd (replace_data (points s)
                           (if dataSorting_enabled s then sortData s raw else raw) s))"
proof -
  let ?d = "if dataSorting_enabled s then sortData s raw else raw"
  let ?S = "setData updateData chartRedraw raw False updatePoints s"
  obtain s2 where r: "replace_data (points s) ?d s = (None, s2)"
    using assms(2) by (cases "replace_data (points s) ?d s") auto
  have sd: "?S =
      (None, if legendType s2 = Some ''point'' then generatePoints (processData False s2) else s2)"
    unfolding setData_replaces[where updateData = updateData and raw = raw and s = s
        and updatePoints = updatePoints, OF assms(1)] r by simp
  show "setData updateData chartRedraw raw redraw updatePoints s =
      (None, redraw_chart redraw chartRedraw (snd ?S))"
    unfolding setData_redraw[of updateData chartRedraw raw redraw] sd by simp
  show "xData (snd ?S) = xData (snd (replace_data (points s) ?d s))"
    "yData (snd ?S) = yData (snd (replace_data (points s) ?d s))"
    "xIncrement (snd ?S) = xIncrement (snd (replace_data (points s) ?d s))"
    by (simp_all add: sd r)
qed

lemma no_update_gate:
  "soft_update_gate updatePoints raw s \<longrightarrow> no_update d s = None"
  by (simp add: no_update_def)

text \<open>
  C4 (as amended). In a series that has no \<open>toYData\<close> hook and no data sorting, and
  that declares x and y among its parallel arrays, let \<open>setData\<close> replace the data by an
  array of plain numbers longer than the turbo threshold: the point-wise update is not
  tried, or it is tried and fails. The \<open>xData\<close> and \<open>yData\<close> that the turbo path
  produces are those that the generic path produces for the same input (the same call
  with the turbo path disabled by a threshold of 0), and the auto-increment cursor
  \<open>xIncrement\<close> ends the same in both. These are the arrays as a call without redraw
  leaves them, and as a call that redraws hands them to the redraw of the chart.
\<close>

theorem turbo_equals_generic:
  assumes "toYData s = None" and "distinct (parallelArrays s)"
    and "''x'' \<in> set (parallelArrays s)" and "''y'' \<in> set (parallelArrays s)"
    and "\<not> dataSorting_enabled s"
    and "soft_update_gate updatePoints (map Num ns) s \<longrightarrow>
           updateData (map Num ns) s = None \<and>
           updateData (map Num ns) (s\<lparr> turboThreshold := 0 \<rparr>) = None"
    and "turboThreshold s \<noteq> 0" and "length ns > turboThreshold s"
  shows "setData updateData chartRedraw (map Num ns) redraw updatePoints s =
           (None, redraw_chart redraw chartRedraw
              (snd (setData updateData chartRedraw (map Num ns) False updatePoints s))) \<and>
         setData updateData chartRedraw (map Num ns) redraw updatePoints (s\<lparr> turboThreshold := 0 \<rparr>) =
           (None, redraw_chart redraw chartRedraw
              (snd (setData updateData chartRedraw (map Num ns) False updatePoints
                      (s\<lparr> turboThreshold := 0 \<rparr>)))) \<and>
         xData (snd (setData updateData chartRedraw (map Num ns) False updatePoints s))
           = xData (snd (setData updateData chartRedraw (map Num ns) False updatePoints
                           (s\<lparr> turboThreshold := 0 \<rparr>))) \<and>
         yData (snd (setData updateData chartRedraw (map Num ns) False updatePoints s))
           = yData (snd (setData updateData chartRedraw (map Num ns) False updatePoints
                           (s\<lparr> turboThreshold := 0 \<rparr>))) \<and>
         xIncrement (snd (setData updateData chartRedraw (map Num ns) False updatePoints s))
           = xIncrement (snd (setData updateData chartRedraw (map Num ns) False updatePoints
                           (s\<lparr> turboThreshold := 0 \<rparr>)))"
proof -
  let ?d = "map Num ns"
  let ?g = "s\<lparr> turboThreshold := 0 \<rparr>"
  let ?s2 = "reset_arrays (s\<lparr> xIncrement := None, colorCounter := 0 \<rparr>)"
  let ?g2 = "reset_arrays (?g\<lparr> xIncrement := None, colorCounter := 0 \<rparr>)"
  have ne: "ns \<noteq> []" using assms(8) by auto
  have "?g\<lparr> xIncrement := None, colorCounter := 0 \<rparr>
        = (s\<lparr> xIncrement := None, colorCounter := 0 \<rparr>)\<lparr> turboThreshold := 0 \<rparr>"
    by (rule series.equality) simp_all
  then have g2: "?g2 = ?s2\<lparr> turboThreshold := 0 \<rparr>"
    by (simp only: reset_arrays_same_xy)
  have rel: "same_xy ?s2 ?g2"
    unfolding g2 same_xy_def
    by (rule exI[of _ "otherData ?s2"], rule exI[of _ 0]) simp
  have c: "toYData ?s2 = None" "distinct (parallelArrays ?s2)"
    "''x'' \<in> set (parallelArrays ?s2)" "''y'' \<in> set (parallelArrays ?s2)"
    using assms(1-4) by simp_all
  have paths: "same_xy (turbo_numbers ?d ?s2) (generic_path ?d ?g2)"
    using rel c by (rule turbo_generic_paths)
  have tp: "(if turboThreshold ?s2 \<noteq> 0 \<and> length ?d > turboThreshold ?s2
             then turbo_path ?d ?s2 else (None, generic_path ?d ?s2))
            = (None, turbo_numbers ?d ?s2)"
    using assms(7,8) getFirstValidPoint_numbers[OF ne] by (simp add: turbo_path_def)
  have gp: "(if turboThreshold ?g2 \<noteq> 0 \<and> length ?d > turboThreshold ?g2
             then turbo_path ?d ?g2 else (None, generic_path ?d ?g2))
            = (None, generic_path ?d ?g2)"
    unfolding g2 by simp
  note rt = replace_data_keeps[OF tp, of "points s"]
  note rg = replace_data_keeps[OF gp, of "points ?g"]
  have ds: "\<not> dataSorting_enabled ?g" using assms(5) by simp
  have gs: "soft_update_gate updatePoints ?d s \<longrightarrow>
      updateData (if dataSorting_enabled s then sortData s ?d else ?d) s = None"
    using assms(5,6) by simp
  have gg: "soft_update_gate updatePoints ?d ?g \<longrightarrow>
      updateData (if dataSorting_enabled ?g then sortData ?g ?d else ?d) ?g = None"
    using assms(5,6) by (simp add: soft_update_gate_def)
  have rt': "fst (replace_data (points s)
                (if dataSorting_enabled s then sortData s ?d else ?d) s) = None"
    using rt(1) assms(5) by simp
  have rg': "fst (replace_data (points ?g)
                (if dataSorting_enabled ?g then sortData ?g ?d else ?d) ?g) = None"
    using rg(1) ds by simp
  note st = setData_keeps[where updateData = updateData and chartRedraw = chartRedraw,
      OF gs rt', unfolded if_not_P[OF assms(5)]]
  note sg = setData_keeps[where updateData = updateData and chartRedraw = chartRedraw,
      OF gg rg', unfolded if_not_P[OF ds]]
  have e: "xData (snd (setData updateData chartRedraw ?d False updatePoints s))
           = xData (snd (setData updateData chartRedraw ?d False updatePoints ?g))"
    "yData (snd (setData updateData chartRedraw ?d False updatePoints s))
           = yData (snd (setData updateData chartRedraw ?d False updatePoints ?g))"
    "xIncrement (snd (setData updateData chartRedraw ?d False updatePoints s))
           = xIncrement (snd (setData updateData chartRedraw ?d False updatePoints ?g))"
    unfolding st(2-4) sg(2-4) rt rg using same_xy_fields[OF paths] by simp_all
  show ?thesis
    by (rule conjI[OF st(1) conjI[OF sg(1) conjI[OF e(1) conjI[OF e(2) e(3)]]]])
qed

lemma turbo_series_more:
  "toYData turbo_series = None" "distinct (parallelArrays turbo_series)"
  "\<not> dataSorting_enabled turbo_series" "\<not> soft_update_gate True d turbo_series"
  "turboThreshold turbo_series \<noteq> 0" "points turbo_series = None"
  by (simp_all add: soft_update_gate_def turbo_series_def default_series_def)

lemma arr_set_eval:
  "arr_set h [] 0 v = [v]" "arr_set h [a] 1 v = [a, v]" "arr_set h [a, b] 2 v = [a, b, v]"
  by (simp_all add: arr_set_def)

lemma turbo_series_turbo:
  "turbo_numbers (map Num [3, 1, 2]) (reset_arrays (turbo_series\<lparr> xIncrement := None, colorCounter := 0 \<rparr>))
     = (reset_arrays (turbo_series\<lparr> xIncrement := None, colorCounter := 0 \<rparr>))
         \<lparr> pointInterval := Some 1, xIncrement := Some 3,
           xData := map Num [0, 1, 2], yData := map Num [3, 1, 2] \<rparr>"
proof -
  have r: "reset_arrays (turbo_series\<lparr> xIncrement := None, colorCounter := 0 \<rparr>)
      = turbo_series\<lparr> xIncrement := None, colorCounter := 0, xData := [], yData := [] \<rparr>"
    by (simp add: reset_arrays_def turbo_series_def default_series_def set_array_def)
  have u: "[0..<3] = [0, 1, 2]" by (simp add: upt_rec)
  show ?thesis
    unfolding r
    by (simp add: turbo_numbers_def u autoIncrement_def Let_def arr_set_eval
        turbo_series_def default_series_def)
qed

theorem turbo_equals_generic_witness:
  "setData no_update plain_redraw (map Num [3, 1, 2]) True True turbo_series =
     (None, redraw_chart True plain_redraw
        (snd (setData no_update plain_redraw (map Num [3, 1, 2]) False True turbo_series))) \<and>
   xData (snd (setData no_update plain_redraw (map Num [3, 1, 2]) False True turbo_series))
     = map Num [0, 1, 2] \<and>
   yData (snd (setData no_update plain_redraw (map Num [3, 1, 2]) False True turbo_series))
     = map Num [3, 1, 2] \<and>
   xIncrement (snd (setData no_update plain_redraw (map Num [3, 1, 2]) False True turbo_series))
     = Some 3 \<and>
   xData (snd (setData no_update plain_redraw (map Num [3, 1, 2]) False True
                 (turbo_series\<lparr> turboThreshold := 0 \<rparr>)))
     = map Num [0, 1, 2] \<and>
   yData (snd (setData no_update plain_redraw (map Num [3, 1, 2]) False True
                 (turbo_series\<lparr> turboThreshold := 0 \<rparr>)))
     = map Num [3, 1, 2] \<and>
   xIncrement (snd (setData no_update plain_redraw (map Num [3, 1, 2]) False True
                 (turbo_series\<lparr> turboThreshold := 0 \<rparr>)))
     = Some 3"
proof -
  let ?d = "map Num [3, 1, 2]"
  let ?s2 = "reset_arrays (turbo_series\<lparr> xIncrement := None, colorCounter := 0 \<rparr>)"
  have l: "turboThreshold turbo_series < length [3::real, 1, 2]"
    by (simp add: turbo_series_facts)
  have tp: "(if turboThreshold ?s2 \<noteq> 0 \<and> length ?d > turboThreshold ?s2
             then turbo_path ?d ?s2 else (None, generic_path ?d ?s2))
            = (None, turbo_numbers ?d ?s2)"
    by (simp add: turbo_path_def turbo_series_facts)
  note rt = replace_data_keeps[OF tp, of "points turbo_series"]
  have rt': "fst (replace_data (points turbo_series)
                (if dataSorting_enabled turbo_series then sortData turbo_series ?d else ?d)
                turbo_series) = None"
    using rt(1) turbo_series_more(3) by simp
  note st = setData_keeps[where updateData = no_update and chartRedraw = plain_redraw
      and updatePoints = True, OF no_update_gate rt', unfolded if_not_P[OF turbo_series_more(3)]]
  have t: "xData (snd (setData no_update plain_redraw ?d False True turbo_series)) = map Num [0, 1, 2]"
    "yData (snd (setData no_update plain_redraw ?d False True turbo_series)) = map Num [3, 1, 2]"
    "xIncrement (snd (setData no_update plain_redraw ?d False True turbo_series)) = Some 3"
    unfolding st(2-4) rt turbo_series_turbo by simp_all
  have g: "soft_update_gate True (map Num [3, 1, 2]) turbo_series \<longrightarrow>
           no_update (map Num [3, 1, 2]) turbo_series = None \<and>
           no_update (map Num [3, 1, 2]) (turbo_series\<lparr> turboThreshold := 0 \<rparr>) = None"
    by (simp add: no_update_def)
  from turbo_equals_generic[where s = turbo_series and ns = "[3, 1, 2]"
      and updateData = no_update and updatePoints = True and chartRedraw = plain_redraw
      and redraw = True, OF turbo_series_more(1,2) turbo_series_facts(4,5)
      turbo_series_more(3) g turbo_series_more(5) l] t
  show ?thesis by simp
qed

lemma reset_arrays_xy:
  assumes "parallelArrays s = [''x'', ''y'']"
  shows "reset_arrays s = s\<lparr> xData := [], yData := [] \<rparr>"
  using assms by (simp add: reset_arrays_def set_array_def)

lemma sorting_series_facts:
  "\<not> soft_update_gate True d sorting_series" "dataSorting_enabled sorting_series"
  "turboThreshold sorting_series = 2" "sortKey sorting_series = None"
  "parallelArrays sorting_series = [''x'', ''y'']" "points sorting_series = None"
  "toYData sorting_series = None"
  by (simp_all add: soft_update_gate_def sorting_series_def default_series_def)

lemma range_series_facts:
  "\<not> soft_update_gate True d range_series" "\<not> dataSorting_enabled range_series"
  "turboThreshold range_series = 2"
  "parallelArrays range_series = [''x'', ''y'']" "points range_series = None"
  "toYData range_series = Some (\<lambda>point. Arr [obj_get point ''low'', obj_get point ''high''])"
  by (simp_all add: soft_update_gate_def range_series_def default_series_def)

text \<open>The generic loop over the three sorted option objects.\<close>

lemma generic_path_sorted_example:
  assumes "parallelArrays s = [''x'', ''y'']" and "toYData s = None"
    and "xData s = []" and "yData s = []"
  shows "xData (generic_path
            [Obj [(''y'', Num 3), (''index'', Num 0), (''x'', Num 0)],
             Obj [(''y'', Num 1), (''index'', Num 1), (''x'', Num 2)],
             Obj [(''y'', Num 2), (''index'', Num 2), (''x'', Num 1)]] s) = map Num [0, 2, 1]"
    and "yData (generic_path
            [Obj [(''y'', Num 3), (''index'', Num 0), (''x'', Num 0)],
             Obj [(''y'', Num 1), (''index'', Num 1), (''x'', Num 2)],
             Obj [(''y'', Num 2), (''index'', Num 2), (''x'', Num 1)]] s) = map Num [3, 1, 2]"
  using assms
  by (simp_all add: generic_path_def upt_3 applyOptions_def obj_get_def Let_def
      updateParallelArrays_def set_array_def get_array_def arr_set_eval)

text \<open>The two loops over the numbers 3, 1, 2 in a series with the range hook.\<close>

lemma range_paths_example:
  assumes "parallelArrays s = [''x'', ''y'']"
    and "toYData s = Some (\<lambda>point. Arr [obj_get point ''low'', obj_get point ''high''])"
    and "xData s = []" and "yData s = []"
  shows "yData (turbo_numbers (map Num [3, 1, 2]) s) = map Num [3, 1, 2]"
    and "yData (generic_path (map Num [3, 1, 2]) s)
           = [Arr [Undefined, Undefined], Arr [Undefined, Undefined], Arr [Undefined, Undefined]]"
proof -
  show "yData (turbo_numbers (map Num [3, 1, 2]) s) = map Num [3, 1, 2]"
    using assms(4)
    by (simp add: turbo_numbers_def upt_3 split_beta arr_set_eval)
  have a: "parallelArrays (snd (autoIncrement t)) = parallelArrays t"
    "toYData (snd (autoIncrement t)) = toYData t" for t
    by simp_all
  show "yData (generic_path (map Num [3, 1, 2]) s)
           = [Arr [Undefined, Undefined], Arr [Undefined, Undefined], Arr [Undefined, Undefined]]"
    using assms
    by (simp add: generic_path_def upt_3 applyOptions_def obj_get_def Let_def split_beta
        updateParallelArrays_def set_array_def get_array_def arr_set_eval)
qed


text \<open>
  The claim as stated fails in two kinds of series. With data sorting enabled, \<open>setData\<close>
  turns the numbers into option objects before the turbo test, which then reports error
  12 and leaves the arrays empty, while the generic path fills them. With a \<open>toYData\<close>
  hook the turbo path stores the numbers as y values, while the generic path stores what
  the hook returns.
\<close>

theorem turbo_differs_from_generic:
  "xData (snd (setData no_update plain_redraw (map Num [3, 1, 2]) False True sorting_series)) = [] \<and>
   yData (snd (setData no_update plain_redraw (map Num [3, 1, 2]) False True sorting_series)) = [] \<and>
   xData (snd (setData no_update plain_redraw (map Num [3, 1, 2]) False True (sorting_series\<lparr> turboThreshold := 0 \<rparr>)))
     = map Num [0, 2, 1] \<and>
   yData (snd (setData no_update plain_redraw (map Num [3, 1, 2]) False True (sorting_series\<lparr> turboThreshold := 0 \<rparr>)))
     = map Num [3, 1, 2] \<and>
   yData (snd (setData no_update plain_redraw (map Num [3, 1, 2]) False True range_series)) = map Num [3, 1, 2] \<and>
   yData (snd (setData no_update plain_redraw (map Num [3, 1, 2]) False True (range_series\<lparr> turboThreshold := 0 \<rparr>)))
     = [Arr [Undefined, Undefined], Arr [Undefined, Undefined], Arr [Undefined, Undefined]]"
proof -
  let ?n = "[Num 3, Num 1, Num 2]"
  let ?o = "[Obj [(''y'', Num 3), (''index'', Num 0), (''x'', Num 0)],
             Obj [(''y'', Num 1), (''index'', Num 1), (''x'', Num 2)],
             Obj [(''y'', Num 2), (''index'', Num 2), (''x'', Num 1)]]"
  have so: "sortData sorting_series ?n = ?o" "sortData (sorting_series\<lparr> turboThreshold := 0 \<rparr>) ?n = ?o"
    using sortData_example(2)[of sorting_series]
      sortData_example(2)[of "sorting_series\<lparr> turboThreshold := 0 \<rparr>"]
    by (simp_all add: sorting_series_facts)
  \<comment> \<open>data sorting, turbo path\<close>
  let ?s = sorting_series
  have e: "replace_data (points ?s) ?o ?s =
     (None, (error 12 False (reset_arrays (?s\<lparr> xIncrement := None, colorCounter := 0 \<rparr>)))
        \<lparr> data := [], opt_data := ?o,
          heap := fold (heap_upd destroy) (rev (case points ?s of None \<Rightarrow> [] | Some ps \<Rightarrow> ps)) (heap ?s),
          xAxis := map_option (\<lambda>a. a\<lparr>minRange := userMinRange a\<rparr>) (xAxis ?s),
          isDirty := True, chart_isDirtyBox := True, isDirtyData := (points ?s \<noteq> None) \<rparr>)"
    by (rule replace_data_format_error) (simp_all add: sorting_series_facts)
  have r1: "reset_arrays (?s\<lparr> xIncrement := None, colorCounter := 0 \<rparr>)
      = ?s\<lparr> xIncrement := None, colorCounter := 0, xData := [], yData := [] \<rparr>"
    by (rule reset_arrays_xy) (simp add: sorting_series_facts)
  have f1: "fst (replace_data (points ?s) (if dataSorting_enabled ?s then sortData ?s ?n else ?n) ?s) = None"
    using e by (simp add: sorting_series_facts so)
  note k1 = setData_keeps[where updateData = no_update and chartRedraw = plain_redraw
      and updatePoints = True, OF no_update_gate f1]
  have c1: "xData (snd (setData no_update plain_redraw ?n False True ?s)) = []"
    "yData (snd (setData no_update plain_redraw ?n False True ?s)) = []"
    unfolding k1(2-4) using e by (simp_all add: sorting_series_facts so r1 error_def)
  \<comment> \<open>data sorting, generic path\<close>
  let ?g = "sorting_series\<lparr> turboThreshold := 0 \<rparr>"
  let ?g2 = "reset_arrays (?g\<lparr> xIncrement := None, colorCounter := 0 \<rparr>)"
  have r2: "?g2 = ?g\<lparr> xIncrement := None, colorCounter := 0, xData := [], yData := [] \<rparr>"
    by (rule reset_arrays_xy) (simp add: sorting_series_facts)
  have gp: "(if turboThreshold ?g2 \<noteq> 0 \<and> length ?o > turboThreshold ?g2
             then turbo_path ?o ?g2 else (None, generic_path ?o ?g2)) = (None, generic_path ?o ?g2)"
    by (simp add: r2)
  note rg = replace_data_keeps[OF gp, of "points ?g"]
  have d2: "dataSorting_enabled ?g" "\<not> soft_update_gate True ?n ?g"
    using sorting_series_facts(1)[of ?n] by (simp_all add: sorting_series_facts soft_update_gate_def)
  have f2: "fst (replace_data (points ?g) (if dataSorting_enabled ?g then sortData ?g ?n else ?n) ?g) = None"
    using rg(1) d2(1) by (simp add: so)
  note k2 = setData_keeps[where updateData = no_update and chartRedraw = plain_redraw
      and updatePoints = True, OF no_update_gate f2]
  have c2: "xData (snd (setData no_update plain_redraw ?n False True ?g)) = map Num [0, 2, 1]"
    "yData (snd (setData no_update plain_redraw ?n False True ?g)) = map Num [3, 1, 2]"
    unfolding k2(2-4) if_P[OF d2(1)] so rg r2
    using generic_path_sorted_example[of "?g\<lparr> xIncrement := None, colorCounter := 0, xData := [], yData := [] \<rparr>"]
    by (simp_all add: sorting_series_facts)
  \<comment> \<open>the range hook, turbo path\<close>
  let ?r = range_series
  let ?r2 = "reset_arrays (?r\<lparr> xIncrement := None, colorCounter := 0 \<rparr>)"
  have r3: "?r2 = ?r\<lparr> xIncrement := None, colorCounter := 0, xData := [], yData := [] \<rparr>"
    by (rule reset_arrays_xy) (simp add: range_series_facts)
  have tp: "(if turboThreshold ?r2 \<noteq> 0 \<and> length ?n > turboThreshold ?r2
             then turbo_path ?n ?r2 else (None, generic_path ?n ?r2)) = (None, turbo_numbers ?n ?r2)"
    by (simp add: r3 range_series_facts turbo_path_def)
  note rt = replace_data_keeps[OF tp, of "points ?r"]
  have f3: "fst (replace_data (points ?r) (if dataSorting_enabled ?r then sortData ?r ?n else ?n) ?r) = None"
    using rt(1) range_series_facts(2) by simp
  note k3 = setData_keeps[where updateData = no_update and chartRedraw = plain_redraw
      and updatePoints = True, OF no_update_gate f3, unfolded if_not_P[OF range_series_facts(2)]]
  have c3: "yData (snd (setData no_update plain_redraw ?n False True ?r)) = map Num [3, 1, 2]"
    unfolding k3(2-4) rt r3
    using range_paths_example(1)[of "?r\<lparr> xIncrement := None, colorCounter := 0, xData := [], yData := [] \<rparr>"]
    by (simp add: range_series_facts)
  \<comment> \<open>the range hook, generic path\<close>
  let ?h = "range_series\<lparr> turboThreshold := 0 \<rparr>"
  let ?h2 = "reset_arrays (?h\<lparr> xIncrement := None, colorCounter := 0 \<rparr>)"
  have r4: "?h2 = ?h\<lparr> xIncrement := None, colorCounter := 0, xData := [], yData := [] \<rparr>"
    by (rule reset_arrays_xy) (simp add: range_series_facts)
  have gh: "(if turboThreshold ?h2 \<noteq> 0 \<and> length ?n > turboThreshold ?h2
             then turbo_path ?n ?h2 else (None, generic_path ?n ?h2)) = (None, generic_path ?n ?h2)"
    by (simp add: r4)
  note rh = replace_data_keeps[OF gh, of "points ?h"]
  have d4: "\<not> dataSorting_enabled ?h" "\<not> soft_update_gate True ?n ?h"
    using range_series_facts(1)[of ?n] by (simp_all add: range_series_facts soft_update_gate_def)
  have f4: "fst (replace_data (points ?h) (if dataSorting_enabled ?h then sortData ?h ?n else ?n) ?h) = None"
    using rh(1) d4(1) by simp
  note k4 = setData_keeps[where updateData = no_update and chartRedraw = plain_redraw
      and updatePoints = True, OF no_update_gate f4, unfolded if_not_P[OF d4(1)]]
  have c4: "yData (snd (setData no_update plain_redraw ?n False True ?h))
     = [Arr [Undefined, Undefined], Arr [Undefined, Undefined], Arr [Undefined, Undefined]]"
    unfolding k4(2-4) rh r4
    using range_paths_example(2)[of "?h\<lparr> xIncrement := None, colorCounter := 0, xData := [], yData := [] \<rparr>"]
    by (simp add: range_series_facts)
  from c1 c2 c3 c4 show ?thesis by simp
qed


subsection \<open>The k-d tree\<close>

lemma kd_axis_cases:
  "kd_axis d 1 = ''clientX''"
  "kd_axis d 2 = (if even d then ''clientX'' else ''plotY'')"
proof -
  show "kd_axis d 1 = ''clientX''" by (simp add: kd_axis_def kdAxisArray_def)
  have "d mod 2 = 0 \<or> d mod 2 = 1" by presburger
  then show "kd_axis d 2 = (if even d then ''clientX'' else ''plotY'')"
    by (auto simp: kd_axis_def kdAxisArray_def even_iff_mod_2_eq_zero)
qed

lemma kd_axis_two:
  assumes "dims = 1 \<or> dims = 2"
  shows "kd_axis d dims = ''clientX'' \<or> kd_axis d dims = ''plotY''"
proof (cases "dims = 1")
  case True
  then show ?thesis using kd_axis_cases(1)[of d] by simp
next
  case False
  then have "dims = 2" using assms by simp
  then show ?thesis using kd_axis_cases(2)[of d] by simp
qed

lemma located_coord:
  assumes "located p" and "a = ''clientX'' \<or> a = ''plotY''"
  shows "pt_coord a p = Some (coord a p)"
  using assms by (auto simp: located_def coord_def pt_coord_def)

lemma kdtree_sort:
  assumes "\<forall>p\<in>set pts. located p" and "a = ''clientX'' \<or> a = ''plotY''"
  shows "js_sort (\<lambda>x y. js_minus (pt_coord a x) (pt_coord a y)) pts = sort_key (coord a) pts"
proof (rule js_sort_sort_key, intro ballI)
  fix x y
  assume "x \<in> set pts" "y \<in> set pts"
  then have "pt_coord a x = Some (coord a x)" "pt_coord a y = Some (coord a y)"
    using assms located_coord by blast+
  then show "(case js_minus (pt_coord a x) (pt_coord a y) of None \<Rightarrow> True | Some c \<Rightarrow> c \<le> 0)
      \<longleftrightarrow> coord a x \<le> coord a y"
    by (simp add: js_minus_def)
qed

lemma kdtree_Nil: "kdtree [] d dims = Empty"
  by (simp add: kdtree.simps)

lemma kdtree_node:
  assumes "pts \<noteq> []"
  shows "kdtree pts d dims =
    KDNode (js_sort (\<lambda>a b. js_minus (pt_coord (kd_axis d dims) a) (pt_coord (kd_axis d dims) b)) pts
              ! (length pts div 2))
      (kdtree (take (length pts div 2)
         (js_sort (\<lambda>a b. js_minus (pt_coord (kd_axis d dims) a) (pt_coord (kd_axis d dims) b)) pts))
         (d + 1) dims)
      (kdtree (drop (length pts div 2 + 1)
         (js_sort (\<lambda>a b. js_minus (pt_coord (kd_axis d dims) a) (pt_coord (kd_axis d dims) b)) pts))
         (d + 1) dims)"
  using assms by (subst kdtree.simps) (simp add: Let_def)

text \<open>The tree holds the points it was built from, each node separating its subtrees.\<close>

lemma sorted_around:
  assumes "sorted (map f xs)" and "m < length xs"
  shows "\<forall>x\<in>set (take m xs). f x \<le> f (xs ! m)" and "\<forall>x\<in>set (drop (Suc m) xs). f (xs ! m) \<le> f x"
proof -
  have "xs = take m xs @ xs ! m # drop (Suc m) xs"
    using assms(2) by (rule id_take_nth_drop)
  then have "sorted (map f (take m xs @ xs ! m # drop (Suc m) xs))"
    using assms(1) by simp
  then have s: "sorted (map f (take m xs) @ f (xs ! m) # map f (drop (Suc m) xs))"
    by simp
  show "\<forall>x\<in>set (take m xs). f x \<le> f (xs ! m)"
    using s unfolding sorted_append by simp
  show "\<forall>x\<in>set (drop (Suc m) xs). f (xs ! m) \<le> f x"
    using s unfolding sorted_append by simp
qed

lemma kdtree_props:
  "dims = 1 \<or> dims = 2 \<Longrightarrow> \<forall>p\<in>set pts. located p \<Longrightarrow>
    set_kdnode (kdtree pts d dims) = set pts \<and> kd_sorted d dims (kdtree pts d dims)"
proof (induction pts d dims rule: kdtree.induct)
  case (1 pts d dims)
  show ?case
  proof (cases "pts = []")
    case True
    then show ?thesis by (simp add: kdtree_Nil)
  next
    case False
    define a where "a = kd_axis d dims"
    define xs where "xs = js_sort (\<lambda>x y. js_minus (pt_coord a x) (pt_coord a y)) pts"
    define m where "m = length pts div 2"
    have ne: "length pts \<noteq> 0" using False by simp
    have ax: "a = ''clientX'' \<or> a = ''plotY''"
      unfolding a_def using 1(3) by (rule kd_axis_two)
    have xs: "xs = sort_key (coord a) pts"
      unfolding xs_def using 1(4) ax by (rule kdtree_sort)
    have sx: "set xs = set pts" and lx: "length xs = length pts"
      and so: "sorted (map (coord a) xs)"
      by (simp_all add: xs)
    have ml: "m < length xs" using ne by (simp add: m_def lx)
    have dec: "xs = take m xs @ xs ! m # drop (Suc m) xs"
      using ml by (rule id_take_nth_drop)
    have st: "set (take m xs) \<union> set (drop (Suc m) xs) \<union> {xs ! m} = set pts"
      using arg_cong[OF dec, of set] sx by auto
    have lt: "\<forall>p\<in>set (take m xs). located p"
      using 1(4) sx in_set_takeD by fastforce
    have ld: "\<forall>p\<in>set (drop (m + 1) xs). located p"
      using 1(4) sx in_set_dropD by fastforce
    have l: "set_kdnode (kdtree (take m xs) (d + 1) dims) = set (take m xs) \<and>
        kd_sorted (d + 1) dims (kdtree (take m xs) (d + 1) dims)"
      using 1(1)[OF ne a_def xs_def m_def 1(3) lt] .
    have r: "set_kdnode (kdtree (drop (m + 1) xs) (d + 1) dims) = set (drop (m + 1) xs) \<and>
        kd_sorted (d + 1) dims (kdtree (drop (m + 1) xs) (d + 1) dims)"
      using 1(2)[OF ne a_def xs_def m_def 1(3) ld] .
    have e: "kdtree pts d dims =
        KDNode (xs ! m) (kdtree (take m xs) (d + 1) dims) (kdtree (drop (m + 1) xs) (d + 1) dims)"
      using kdtree_node[OF False, of d dims] by (simp add: xs_def a_def m_def)
    have ar: "\<forall>x\<in>set (take m xs). coord a x \<le> coord a (xs ! m)"
      "\<forall>x\<in>set (drop (Suc m) xs). coord a (xs ! m) \<le> coord a x"
      using sorted_around[OF so ml] by simp_all
    show ?thesis
      unfolding e using l r st ar by (auto simp: a_def)
  qed
qed

text \<open>The distance \<open>setDistance\<close> leaves on a point, and what it bounds.\<close>

lemma comparer_metric:
  assumes "located p"
  shows "kdComparer cX (setDistance q p) = Some (nearest_metric cX q p)"
proof -
  obtain px py where p: "clientX p = Some px" "plotY p = Some py"
    using assms by (auto simp: located_def)
  have c: "coord ''clientX'' p = px" "coord ''plotY'' p = py"
    using p by (simp_all add: coord_def pt_coord_def)
  show ?thesis
    by (cases "so_plotY q")
      (simp_all add: kdComparer_def setDistance_def nearest_metric_def x_distance_def
        euclidean_def p c)
qed

lemma setDistance_coord: "pt_coord a (setDistance q p) = pt_coord a p"
  by (simp add: pt_coord_def setDistance_def Let_def)

lemma euclidean_bounds:
  assumes "so_plotY q = Some qy"
  shows "\<bar>so_clientX q - coord ''clientX'' p\<bar> \<le> euclidean q p"
    and "\<bar>qy - coord ''plotY'' p\<bar> \<le> euclidean q p"
proof -
  have a: "\<bar>x\<bar> \<le> sqrt (x ^ 2 + y ^ 2)" for x y :: real
  proof -
    have "sqrt (x ^ 2) \<le> sqrt (x ^ 2 + y ^ 2)" by (rule real_sqrt_le_mono) simp
    then show ?thesis by simp
  qed
  have b: "\<bar>y\<bar> \<le> sqrt (x ^ 2 + y ^ 2)" for x y :: real
  proof -
    have "sqrt (y ^ 2) \<le> sqrt (x ^ 2 + y ^ 2)" by (rule real_sqrt_le_mono) simp
    then show ?thesis by simp
  qed
  show "\<bar>so_clientX q - coord ''clientX'' p\<bar> \<le> euclidean q p"
    using a by (simp add: euclidean_def assms)
  show "\<bar>qy - coord ''plotY'' p\<bar> \<le> euclidean q p"
    using b by (simp add: euclidean_def assms)
qed

lemma metric_bound:
  assumes "dims = 1 \<or> (dims = 2 \<and> \<not> cX \<and> so_plotY q \<noteq> None)"
    and "so_coord (kd_axis d dims) q = Some cq"
  shows "\<bar>cq - coord (kd_axis d dims) p\<bar> \<le> nearest_metric cX q p"
proof (cases "kd_axis d dims = ''clientX''")
  case True
  then have cq: "cq = so_clientX q" using assms(2) by (simp add: so_coord_def)
  show ?thesis
  proof (cases "so_plotY q")
    case None
    then show ?thesis by (simp add: True cq nearest_metric_def euclidean_def x_distance_def)
  next
    case (Some qy)
    then show ?thesis
      using euclidean_bounds(1)[OF Some, of p]
      by (simp add: True cq nearest_metric_def x_distance_def)
  qed
next
  case False
  then have d2: "dims = 2 \<and> \<not> cX \<and> so_plotY q \<noteq> None"
    using assms(1) kd_axis_cases(1)[of d] by auto
  then have ax: "kd_axis d dims = ''plotY''"
    using False kd_axis_cases(2)[of d] by (simp split: if_splits)
  obtain qy where qy: "so_plotY q = Some qy" using d2 by auto
  then have cq: "cq = qy" using assms(2) by (simp add: so_coord_def ax)
  have "nearest_metric cX q p = euclidean q p" using d2 by (simp add: nearest_metric_def)
  then show ?thesis
    unfolding ax cq using euclidean_bounds(2)[OF qy, of p] by simp
qed

lemma query_coord:
  assumes "dims = 1 \<or> (dims = 2 \<and> \<not> cX \<and> so_plotY q \<noteq> None)"
  shows "\<exists>cq. so_coord (kd_axis d dims) q = Some cq"
proof (cases "kd_axis d dims = ''clientX''")
  case True
  then show ?thesis by (simp add: so_coord_def)
next
  case False
  then have d2: "dims = 2 \<and> \<not> cX \<and> so_plotY q \<noteq> None"
    using assms(1) kd_axis_cases(1)[of d] by auto
  then have ax: "kd_axis d dims = ''plotY''"
    using False kd_axis_cases(2)[of d] by (simp split: if_splits)
  obtain qy where qy: "so_plotY q = Some qy" using d2 by auto
  show ?thesis unfolding ax by (simp add: so_coord_def qy)
qed

text \<open>Keeping the better of the current point and the result of a subtree.\<close>

lemma best_of_single:
  "best_of cX q {p} (setDistance q p)"
  by (simp add: best_of_def)

lemma best_of_comparer:
  assumes "best_of cX q S r" and "\<forall>p\<in>S. located p"
  shows "\<exists>v. kdComparer cX r = Some v \<and> (\<forall>p'\<in>S. v \<le> nearest_metric cX q p')"
proof -
  obtain p where p: "p \<in> S" "r = setDistance q p"
    "\<forall>p'\<in>S. nearest_metric cX q p \<le> nearest_metric cX q p'"
    using assms(1) by (auto simp: best_of_def)
  have "kdComparer cX r = Some (nearest_metric cX q p)"
    using comparer_metric[of p cX q] assms(2) p(1,2) by simp
  then show ?thesis using p(3) by blast
qed

lemma best_of_extend:
  assumes "best_of cX q S r" and "kdComparer cX r = Some v" and "\<forall>p\<in>S. located p"
    and "\<forall>p'\<in>T. v \<le> nearest_metric cX q p'"
  shows "best_of cX q (S \<union> T) r"
proof -
  obtain p where p: "p \<in> S" "r = setDistance q p"
    "\<forall>p'\<in>S. nearest_metric cX q p \<le> nearest_metric cX q p'"
    using assms(1) by (auto simp: best_of_def)
  have "kdComparer cX r = Some (nearest_metric cX q p)"
    using comparer_metric[of p cX q] assms(3) p(1,2) by simp
  then have "v = nearest_metric cX q p" using assms(2) by simp
  then have "\<forall>p'\<in>S \<union> T. nearest_metric cX q p \<le> nearest_metric cX q p'"
    using p(3) assms(4) by auto
  then show ?thesis using p(1,2) unfolding best_of_def by blast
qed

lemma best_of_combine:
  assumes "best_of cX q S cur" and "\<forall>p\<in>S. located p" and "\<forall>p\<in>T. located p"
    and "(res = None \<and> T = {}) \<or> (\<exists>n. res = Some n \<and> best_of cX q T n)"
  shows "best_of cX q (S \<union> T)
    (case res of None \<Rightarrow> cur
     | Some n \<Rightarrow> if opt_less (kdComparer cX n) (kdComparer cX cur) then n else cur)"
proof (cases res)
  case None
  then show ?thesis using assms(1,4) by (auto simp: best_of_def)
next
  case (Some n)
  then have bn: "best_of cX q T n" using assms(4) by simp
  obtain v where v: "kdComparer cX cur = Some v" "\<forall>p'\<in>S. v \<le> nearest_metric cX q p'"
    using best_of_comparer[OF assms(1,2)] by blast
  obtain w where w: "kdComparer cX n = Some w" "\<forall>p'\<in>T. w \<le> nearest_metric cX q p'"
    using best_of_comparer[OF bn assms(3)] by blast
  show ?thesis
  proof (cases "w < v")
    case True
    then have "\<forall>p'\<in>S. w \<le> nearest_metric cX q p'" using v(2) by fastforce
    then have "best_of cX q (T \<union> S) n"
      using best_of_extend[OF bn w(1) assms(3)] by blast
    then show ?thesis using True by (simp add: Some v w opt_less_def Un_commute)
  next
    case False
    then have "\<forall>p'\<in>T. v \<le> nearest_metric cX q p'" using w(2) by fastforce
    then have "best_of cX q (S \<union> T) cur"
      using best_of_extend[OF assms(1) v(1) assms(2)] by blast
    then show ?thesis using False by (simp add: Some v w opt_less_def)
  qed
qed

text \<open>The search of a tree returns a nearest point of the tree.\<close>

lemma search_best:
  assumes adm: "dims = 1 \<or> (dims = 2 \<and> \<not> cX \<and> so_plotY q \<noteq> None)"
  shows "kd_sorted d dims t \<Longrightarrow> \<forall>p\<in>set_kdnode t. located p \<Longrightarrow>
    (search q cX t d dims = None \<and> set_kdnode t = {}) \<or>
    (\<exists>n. search q cX t d dims = Some n \<and> best_of cX q (set_kdnode t) n)"
proof (induction t arbitrary: d)
  case Empty
  then show ?case by simp
next
  case (KDNode p l r)
  define a where "a = kd_axis d dims"
  obtain cq where cq: "so_coord a q = Some cq"
    using query_coord[OF adm, of d] by (auto simp: a_def)
  have lp: "located p" and ll: "\<forall>x\<in>set_kdnode l. located x" and lr: "\<forall>x\<in>set_kdnode r. located x"
    using KDNode.prems(2) by simp_all
  have d12: "dims = 1 \<or> dims = 2" using adm by blast
  have ax: "a = ''clientX'' \<or> a = ''plotY''"
    unfolding a_def using d12 by (rule kd_axis_two)
  have cp: "pt_coord a (setDistance q p) = Some (coord a p)"
    using located_coord[OF lp ax] by (simp add: setDistance_coord)
  define t where "t = cq - coord a p"
  have td: "js_minus (so_coord a q) (pt_coord a (setDistance q p)) = Some t"
    by (simp add: js_minus_def cq cp t_def)
  have neg: "opt_less (Some t) (Some 0) = (t < 0)"
    by (simp add: opt_less_def)
  define A where "A = (if t < 0 then l else r)"
  define B where "B = (if t < 0 then r else l)"
  define ret1 where "ret1 =
    (case search q cX A (d + 1) dims of
       None \<Rightarrow> setDistance q p
     | Some n \<Rightarrow> if opt_less (kdComparer cX n) (kdComparer cX (setDistance q p)) then n
                 else setDistance q p)"
  have eq: "search q cX (KDNode p l r) d dims =
    Some (if opt_less (Some (sqrt (t * t))) (kdComparer cX ret1)
          then (case search q cX B (d + 1) dims of
                  None \<Rightarrow> ret1
                | Some n2 \<Rightarrow> if opt_less (kdComparer cX n2) (kdComparer cX ret1) then n2 else ret1)
          else ret1)"
    by (cases "t < 0")
      (simp_all only: search.simps Let_def a_def[symmetric] td neg A_def B_def ret1_def
        if_True if_False option.map)
  have sl: "kd_sorted (d + 1) dims l" and sr: "kd_sorted (d + 1) dims r"
    and ol: "\<forall>x\<in>set_kdnode l. coord a x \<le> coord a p"
    and or: "\<forall>x\<in>set_kdnode r. coord a p \<le> coord a x"
    using KDNode.prems(1) by (simp_all add: a_def)
  have rl: "(search q cX l (d + 1) dims = None \<and> set_kdnode l = {}) \<or>
      (\<exists>n. search q cX l (d + 1) dims = Some n \<and> best_of cX q (set_kdnode l) n)"
    using KDNode.IH(1)[OF sl ll] .
  have rr: "(search q cX r (d + 1) dims = None \<and> set_kdnode r = {}) \<or>
      (\<exists>n. search q cX r (d + 1) dims = Some n \<and> best_of cX q (set_kdnode r) n)"
    using KDNode.IH(2)[OF sr lr] .
  have rA: "(search q cX A (d + 1) dims = None \<and> set_kdnode A = {}) \<or>
      (\<exists>n. search q cX A (d + 1) dims = Some n \<and> best_of cX q (set_kdnode A) n)"
    using rl rr by (simp add: A_def)
  have rB: "(search q cX B (d + 1) dims = None \<and> set_kdnode B = {}) \<or>
      (\<exists>n. search q cX B (d + 1) dims = Some n \<and> best_of cX q (set_kdnode B) n)"
    using rl rr by (simp add: B_def)
  have lA: "\<forall>x\<in>set_kdnode A. located x" and lB: "\<forall>x\<in>set_kdnode B. located x"
    using ll lr by (simp_all add: A_def B_def)
  have l1: "\<forall>x\<in>{p}. located x" using lp by simp
  have b1: "best_of cX q ({p} \<union> set_kdnode A) ret1"
    unfolding ret1_def by (rule best_of_combine[OF best_of_single l1 lA rA])
  have l2: "\<forall>x\<in>{p} \<union> set_kdnode A. located x" using lp lA by simp
  have sets: "set_kdnode (KDNode p l r) = ({p} \<union> set_kdnode A) \<union> set_kdnode B"
    by (auto simp: A_def B_def)
  have far: "\<bar>t\<bar> \<le> nearest_metric cX q x" if "x \<in> set_kdnode B" for x
  proof -
    have "\<bar>t\<bar> \<le> \<bar>cq - coord a x\<bar>"
    proof (cases "t < 0")
      case True
      then have "coord a p \<le> coord a x" using that or by (simp add: B_def)
      then show ?thesis using True by (simp add: t_def)
    next
      case False
      then have "coord a x \<le> coord a p" using that ol by (simp add: B_def)
      then show ?thesis using False by (simp add: t_def)
    qed
    also have "\<dots> \<le> nearest_metric cX q x"
      unfolding a_def using cq[unfolded a_def] by (rule metric_bound[OF adm])
    finally show ?thesis .
  qed
  show ?case
  proof (cases "opt_less (Some (sqrt (t * t))) (kdComparer cX ret1)")
    case True
    have "best_of cX q (({p} \<union> set_kdnode A) \<union> set_kdnode B)
      (case search q cX B (d + 1) dims of
         None \<Rightarrow> ret1
       | Some n2 \<Rightarrow> if opt_less (kdComparer cX n2) (kdComparer cX ret1) then n2 else ret1)"
      by (rule best_of_combine[OF b1 l2 lB rB])
    then show ?thesis unfolding eq sets using True by simp
  next
    case False
    obtain v where v: "kdComparer cX ret1 = Some v"
      using best_of_comparer[OF b1 l2] by blast
    have "v \<le> \<bar>t\<bar>" using False by (simp add: v opt_less_def)
    then have "\<forall>x\<in>set_kdnode B. v \<le> nearest_metric cX q x"
      using far by fastforce
    then have "best_of cX q (({p} \<union> set_kdnode A) \<union> set_kdnode B) ret1"
      by (rule best_of_extend[OF b1 v l2])
    then show ?thesis unfolding eq sets using False by simp
  qed
qed

text \<open>The exhaustive scan returns the first of the nearest points.\<close>

lemma scan_from:
  "\<exists>p0\<in>insert b (set pts). fold (scan_step m) pts (Some b) = Some p0 \<and>
     (\<forall>p'\<in>insert b (set pts). m p0 \<le> m p')"
proof (induction pts arbitrary: b)
  case Nil
  then show ?case by simp
next
  case (Cons a pts)
  show ?case
  proof (cases "m a < m b")
    case True
    obtain p0 where p0: "p0 \<in> insert a (set pts)" "fold (scan_step m) pts (Some a) = Some p0"
      "\<forall>p'\<in>insert a (set pts). m p0 \<le> m p'"
      using Cons.IH[of a] by blast
    have st: "scan_step m a (Some b) = Some a" using True by (simp add: scan_step_def)
    have f: "fold (scan_step m) (a # pts) (Some b) = Some p0" by (simp add: st p0(2))
    have "m p0 \<le> m b" using p0(3) True by fastforce
    then have "\<forall>p'\<in>insert b (set (a # pts)). m p0 \<le> m p'" using p0(3) by simp
    moreover have "p0 \<in> insert b (set (a # pts))" using p0(1) by auto
    ultimately show ?thesis using f by blast
  next
    case False
    obtain p0 where p0: "p0 \<in> insert b (set pts)" "fold (scan_step m) pts (Some b) = Some p0"
      "\<forall>p'\<in>insert b (set pts). m p0 \<le> m p'"
      using Cons.IH[of b] by blast
    have st: "scan_step m a (Some b) = Some b" using False by (simp add: scan_step_def)
    have f: "fold (scan_step m) (a # pts) (Some b) = Some p0" by (simp add: st p0(2))
    have "m p0 \<le> m a" using p0(3) False by fastforce
    then have "\<forall>p'\<in>insert b (set (a # pts)). m p0 \<le> m p'" using p0(3) by simp
    moreover have "p0 \<in> insert b (set (a # pts))" using p0(1) by auto
    ultimately show ?thesis using f by blast
  qed
qed

lemma linear_scan_nearest:
  assumes "pts \<noteq> []"
  shows "\<exists>p0\<in>set pts. linear_scan m pts = Some p0 \<and> (\<forall>p'\<in>set pts. m p0 \<le> m p')"
proof -
  obtain a as where e: "pts = a # as" using assms by (cases pts) auto
  show ?thesis
proof -
    have "scan_step m a None = Some a" by (simp add: scan_step_def)
    then have "linear_scan m pts = fold (scan_step m) as (Some a)"
      by (simp add: e linear_scan_def)
    then show ?thesis using scan_from[of a as m] by (simp add: e)
  qed
qed

text \<open>
  C5. For every list of points with both pixel coordinates over which the tree of a
  series has been built, and every search position: in the mode by x only, and in the
  mode by x and y without \<open>compareX\<close> for a search position with \<open>plotY\<close>,
  \<open>searchKDTree\<close> leaves the series as it is and returns one of the points, its distances
  set, that is as near as the point the exhaustive linear scan finds, under the distance
  the comparison reads: the x-distance with \<open>compareX\<close>, the Euclidean distance
  otherwise. Where no other point is as near as the scan's, it returns that very point.
\<close>

theorem searchKDTree_nearest:
  assumes "kdTree s = kdtree pts (kdDimensions s) (kdDimensions s)" and "pts \<noteq> []"
    and "\<forall>p\<in>set pts. located p"
    and "kdDimensions s = 1 \<or> (\<not> compareX \<and> so_plotY q \<noteq> None)"
  shows "\<exists>p p0. searchKDTree q compareX touchstart s = (Some (setDistance q p), s) \<and>
    p \<in> set pts \<and>
    linear_scan (nearest_metric compareX q) pts = Some p0 \<and>
    nearest_metric compareX q p = nearest_metric compareX q p0 \<and>
    ((\<forall>p'\<in>set pts. p' \<noteq> p0 \<longrightarrow> nearest_metric compareX q p0 < nearest_metric compareX q p')
       \<longrightarrow> p = p0)"
proof -
  define dims where "dims = kdDimensions s"
  have d12: "dims = 1 \<or> dims = 2" by (simp add: dims_def kdDimensions_def)
  have adm: "dims = 1 \<or> (dims = 2 \<and> \<not> compareX \<and> so_plotY q \<noteq> None)"
    using assms(4) d12 by (auto simp: dims_def)
  have tr: "set_kdnode (kdtree pts dims dims) = set pts \<and> kd_sorted dims dims (kdtree pts dims dims)"
    using d12 assms(3) by (rule kdtree_props)
  have lt: "\<forall>p\<in>set_kdnode (kdtree pts dims dims). located p"
    using tr assms(3) by simp
  have ne: "set_kdnode (kdtree pts dims dims) \<noteq> {}" using tr assms(2) by simp
  then have nE: "kdTree s \<noteq> Empty" using assms(1) by (auto simp: dims_def)
  have se: "searchKDTree q compareX touchstart s =
      (search q compareX (kdtree pts dims dims) dims dims, s)"
    using nE by (simp add: searchKDTree_def Let_def assms(1) dims_def)
  obtain n where n: "search q compareX (kdtree pts dims dims) dims dims = Some n"
    "best_of compareX q (set pts) n"
    using search_best[OF adm conjunct2[OF tr] lt] ne tr by auto
  obtain p where p: "p \<in> set pts" "n = setDistance q p"
    "\<forall>p'\<in>set pts. nearest_metric compareX q p \<le> nearest_metric compareX q p'"
    using n(2) by (auto simp: best_of_def)
  obtain p0 where p0: "p0 \<in> set pts" "linear_scan (nearest_metric compareX q) pts = Some p0"
    "\<forall>p'\<in>set pts. nearest_metric compareX q p0 \<le> nearest_metric compareX q p'"
    using linear_scan_nearest[OF assms(2), of "nearest_metric compareX q"] by blast
  have eq: "nearest_metric compareX q p = nearest_metric compareX q p0"
    using p(1,3) p0(1,3) by (simp add: order_antisym)
  have un: "p = p0"
    if "\<forall>p'\<in>set pts. p' \<noteq> p0 \<longrightarrow> nearest_metric compareX q p0 < nearest_metric compareX q p'"
    using that p(1) eq by fastforce
  show ?thesis
    unfolding se n(1) p(2) using p(1) p0(2) eq un by blast
qed

text \<open>The searches of the three example series, evaluated node by node.\<close>

lemmas kd_eval =
  kd_series_def startRecursive_def kdDimensions_def default_series_def
  getValidPoints_def series_points_def point_at_def pointInit_def
  kdtree_Nil kdtree_node js_sort_def js_minus_def pt_coord_def kd_axis_def kdAxisArray_def

lemma sqrt_compare:
  fixes a b :: real
  assumes "0 \<le> a"
  shows "(a < sqrt b) = (a ^ 2 < b)" and "(sqrt b < a) = (b < a ^ 2)"
proof -
  have a: "sqrt (a ^ 2) = a" using assms by simp
  show "(a < sqrt b) = (a ^ 2 < b)"
    using real_sqrt_less_iff[of "a ^ 2" b] unfolding a .
  show "(sqrt b < a) = (b < a ^ 2)"
    using real_sqrt_less_iff[of b "a ^ 2"] unfolding a .
qed

lemma beside_tree:
  "kdTree (kd_series ''x'' beside_points) =
     KDNode (point_at 3 4) (KDNode (point_at 0 0) Empty Empty) Empty"
  "kdTree (kd_series ''x'' beside_points) = kdtree beside_points 1 1"
  "kdDimensions (kd_series ''x'' beside_points) = 1"
  by (simp_all add: beside_points_def kd_eval)

lemma point_at_coord:
  "pt_coord ''clientX'' (point_at x y) = Some x"
  "pt_coord ''plotY'' (point_at x y) = Some y"
  "coord ''clientX'' (point_at x y) = x"
  "coord ''plotY'' (point_at x y) = y"
  "located (point_at x y)"
  by (simp_all add: pt_coord_def coord_def located_def point_at_def)

lemma kd_axis_eval:
  "kd_axis d 1 = ''clientX''" "kd_axis d (Suc 0) = ''clientX''"
  "kd_axis d 2 = (if even d then ''clientX'' else ''plotY'')"
  using kd_axis_cases[of d] by simp_all

lemma search_leaf:
  "search q cX (KDNode p Empty Empty) d dims = Some (setDistance q p)"
  by (simp add: Let_def)

lemmas search_eval =
  Let_def setDistance_coord comparer_metric point_at_coord kd_axis_eval
  nearest_metric_def x_distance_def euclidean_def so_coord_def js_minus_def opt_less_def
  sqrt_compare

lemma beside_search:
  "searchKDTree beside_query False False (kd_series ''x'' beside_points) =
     (Some (setDistance beside_query (point_at 0 0)), kd_series ''x'' beside_points)"
proof -
  have "search beside_query False (KDNode (point_at 3 4) (KDNode (point_at 0 0) Empty Empty) Empty)
      1 1 = Some (setDistance beside_query (point_at 0 0))"
    unfolding search.simps(2)[of _ _ "point_at 3 4"] search_leaf
    by (simp add: search_eval beside_query_def del: search.simps(2))
  then show ?thesis
    by (simp add: searchKDTree_def beside_tree(1,3) Let_def del: search.simps)
qed

lemma beside_scan:
  "linear_scan (spec_metric 1 False beside_query) beside_points = Some (point_at 3 4)"
  "spec_metric 1 False beside_query (point_at 3 4) < spec_metric 1 False beside_query (point_at 0 0)"
  by (simp_all add: linear_scan_def scan_step_def spec_metric_def x_distance_def point_at_coord
      beside_points_def beside_query_def)

lemma above_tree:
  "kdTree (kd_series ''xy'' above_points) =
     KDNode (point_at 100 0)
       (KDNode (point_at 0 10) (KDNode (point_at 5 0) Empty Empty) Empty)
       (KDNode (point_at 200 0) Empty Empty)"
  "kdTree (kd_series ''xy'' above_points) = kdtree above_points 2 2"
  "kdDimensions (kd_series ''xy'' above_points) = 2"
  by (simp_all add: above_points_def kd_eval)

lemma above_search:
  "searchKDTree above_query True False (kd_series ''xy'' above_points) =
     (Some (setDistance above_query (point_at 0 10)), kd_series ''xy'' above_points)"
proof -
  have a: "search above_query True (KDNode (point_at 0 10) (KDNode (point_at 5 0) Empty Empty) Empty)
      3 2 = Some (setDistance above_query (point_at 0 10))"
    unfolding search.simps(2)[of _ _ "point_at 0 10"] search_leaf
    by (simp add: search_eval above_query_def del: search.simps(2))
  have "search above_query True
      (KDNode (point_at 100 0)
        (KDNode (point_at 0 10) (KDNode (point_at 5 0) Empty Empty) Empty)
        (KDNode (point_at 200 0) Empty Empty)) 2 2 =
      Some (setDistance above_query (point_at 0 10))"
    unfolding search.simps(2)[of _ _ "point_at 100 0"] search_leaf
    using a by (simp add: search_eval above_query_def del: search.simps(2))
  then show ?thesis
    by (simp add: searchKDTree_def above_tree(1,3) Let_def del: search.simps)
qed

lemma above_scan:
  "linear_scan (spec_metric 2 True above_query) above_points = Some (point_at 5 0)"
  "spec_metric 2 True above_query (point_at 5 0) < spec_metric 2 True above_query (point_at 0 10)"
  by (simp_all add: linear_scan_def scan_step_def spec_metric_def x_distance_def point_at_coord
      above_points_def above_query_def)

lemma plane_tree:
  "kdTree (kd_series ''xy'' plane_points) =
     KDNode (point_at 3 4) (KDNode (point_at 0 0) Empty Empty) (KDNode (point_at 10 0) Empty Empty)"
  "kdTree (kd_series ''xy'' plane_points) = kdtree plane_points 2 2"
  "kdDimensions (kd_series ''xy'' plane_points) = 2"
  by (simp_all add: plane_points_def kd_eval)

lemma plane_search:
  "searchKDTree plane_query False False (kd_series ''xy'' plane_points) =
     (Some (setDistance plane_query (point_at 3 4)), kd_series ''xy'' plane_points)"
proof -
  have "search plane_query False
      (KDNode (point_at 3 4) (KDNode (point_at 0 0) Empty Empty) (KDNode (point_at 10 0) Empty Empty))
      2 2 = Some (setDistance plane_query (point_at 3 4))"
    unfolding search.simps(2)[of _ _ "point_at 3 4"] search_leaf
    by (simp add: search_eval plane_query_def del: search.simps(2))
  then show ?thesis
    by (simp add: searchKDTree_def plane_tree(1,3) Let_def del: search.simps)
qed

theorem searchKDTree_nearest_witness:
  "kdTree (kd_series ''xy'' plane_points) =
     kdtree plane_points (kdDimensions (kd_series ''xy'' plane_points))
       (kdDimensions (kd_series ''xy'' plane_points)) \<and>
   plane_points \<noteq> [] \<and>
   located (point_at 0 0) \<and> located (point_at 3 4) \<and> located (point_at 10 0) \<and>
   so_plotY plane_query \<noteq> None \<and>
   searchKDTree plane_query False False (kd_series ''xy'' plane_points) =
     (Some (setDistance plane_query (point_at 3 4)), kd_series ''xy'' plane_points) \<and>
   (\<exists>p p0. searchKDTree plane_query False False (kd_series ''xy'' plane_points) =
       (Some (setDistance plane_query p), kd_series ''xy'' plane_points) \<and>
     p \<in> set plane_points \<and>
     linear_scan (nearest_metric False plane_query) plane_points = Some p0 \<and>
     nearest_metric False plane_query p = nearest_metric False plane_query p0 \<and>
     ((\<forall>p'\<in>set plane_points. p' \<noteq> p0 \<longrightarrow>
         nearest_metric False plane_query p0 < nearest_metric False plane_query p')
        \<longrightarrow> p = p0))"
proof -
  have a: "kdTree (kd_series ''xy'' plane_points) =
     kdtree plane_points (kdDimensions (kd_series ''xy'' plane_points))
       (kdDimensions (kd_series ''xy'' plane_points))"
    by (simp add: plane_tree(2,3))
  have b: "plane_points \<noteq> []" by (simp add: plane_points_def)
  have c: "\<forall>p\<in>set plane_points. located p"
    by (simp add: plane_points_def point_at_coord)
  have q: "so_plotY plane_query \<noteq> None" by (simp add: plane_query_def)
  then have d: "kdDimensions (kd_series ''xy'' plane_points) = 1 \<or>
      (\<not> False \<and> so_plotY plane_query \<noteq> None)"
    by simp
  show ?thesis
    using searchKDTree_nearest[OF a b c d, of False] a b q plane_search
    by (simp add: point_at_coord)
qed

text \<open>
  Searched by x only without \<open>compareX\<close>, from a position with \<open>plotY\<close>, the tree returns
  the point nearest by Euclidean distance, not the one nearest by x; and searched by x
  and y with \<open>compareX\<close>, it skips the subtree that holds the point nearest by x.
\<close>

theorem searchKDTree_other_point:
  "kdTree (kd_series ''x'' beside_points) = kdtree beside_points 1 1 \<and>
   kdDimensions (kd_series ''x'' beside_points) = 1 \<and>
   fst (searchKDTree beside_query False False (kd_series ''x'' beside_points)) =
     Some (setDistance beside_query (point_at 0 0)) \<and>
   linear_scan (spec_metric 1 False beside_query) beside_points = Some (point_at 3 4) \<and>
   spec_metric 1 False beside_query (point_at 3 4) <
     spec_metric 1 False beside_query (point_at 0 0) \<and>
   kdTree (kd_series ''xy'' above_points) = kdtree above_points 2 2 \<and>
   kdDimensions (kd_series ''xy'' above_points) = 2 \<and>
   fst (searchKDTree above_query True False (kd_series ''xy'' above_points)) =
     Some (setDistance above_query (point_at 0 10)) \<and>
   linear_scan (spec_metric 2 True above_query) above_points = Some (point_at 5 0) \<and>
   spec_metric 2 True above_query (point_at 5 0) <
     spec_metric 2 True above_query (point_at 0 10)"
  using beside_tree(2,3) beside_search beside_scan above_tree(2,3) above_search above_scan
  by simp


end
